theory Spec2Isabelle
  imports Complex_Main "HOL-Library.Sublist" "HOL-Library.Char_ord" "HOL-Library.List_Lexorder"
    "HOL-Library.Log_Nat"
begin

section \<open>Skill auto-activation: \<^verbatim>\<open>.claude-library/hooks/scripts/skill_activator.py\<close>\<close>

text \<open>
  The script scores every configured skill against the prompt (\<^verbatim>\<open>analyze_prompt\<close>) and
  against the files git reports as modified (\<^verbatim>\<open>analyze_file_context\<close>), merges the two
  sets of names, ranks them by priority and keeps the first few (\<^verbatim>\<open>main\<close>).

  The prompt, the keywords and the intent patterns are texts: lists of Unicode code
  points. Skill names, glob patterns and file paths are of type \<^typ>\<open>string\<close>, where a
  character stands for the code point of the same number (0 to 255).
\<close>

subsection \<open>The standard library: strings\<close>

type_synonym unicode = "int list"

definition text_of :: "string \<Rightarrow> unicode" where
  "text_of s = map of_char s"

definition chars_of :: "unicode \<Rightarrow> string" where
  "chars_of s = map char_of s"

definition latin1 :: "unicode \<Rightarrow> bool" where
  "latin1 s = list_all (\<lambda>c. 0 \<le> c \<and> c < 256) s"

text \<open>Lower case on code points below 256, as \<^verbatim>\<open>re.IGNORECASE\<close> compares them: A-Z and the
  accented capitals (192 to 222, without the multiplication sign 215) move up by 32.\<close>

definition py_lower_char :: "char \<Rightarrow> char" where
  "py_lower_char c =
     (let n = (of_char c :: nat)
      in if (65 \<le> n \<and> n \<le> 90) \<or> (192 \<le> n \<and> n \<le> 222 \<and> n \<noteq> 215)
         then char_of (n + 32) else c)"

text \<open>\<^verbatim>\<open>old in s\<close> on strings and texts is the test for a contiguous occurrence, \<^const>\<open>sublist\<close>;
  the empty string occurs in every string.\<close>

text \<open>\<^verbatim>\<open>s.replace(old, new)\<close>: the occurrences of \<open>old\<close> are replaced from left to right,
  without overlap. For an empty \<open>old\<close>, \<open>new\<close> goes before every character and at the end.\<close>

function str_replace :: "string \<Rightarrow> string \<Rightarrow> string \<Rightarrow> string" where
  "str_replace old new s =
     (if s = [] then (if old = [] then new else [])
      else if old = [] then new @ hd s # str_replace old new (tl s)
      else if prefix old s then new @ str_replace old new (drop (length old) s)
      else hd s # str_replace old new (tl s))"
  by pat_completeness auto
termination
  by (relation "measure (\<lambda>(old, new, s). length s)") auto

declare str_replace.simps [simp del]

text \<open>\<^verbatim>\<open>sep.join(parts)\<close>\<close>

fun str_join :: "string \<Rightarrow> string list \<Rightarrow> string" where
  "str_join sep [] = []"
| "str_join sep [x] = x"
| "str_join sep (x # y # ys) = x @ sep @ str_join sep (y # ys)"

subsection \<open>The standard library: regular expressions\<close>

text \<open>
  \<^verbatim>\<open>re.search\<close> and \<^verbatim>\<open>re.match\<close> belong to Python, not to the repository. The syntax
  modelled here is: literal characters, \<^verbatim>\<open>.\<close>, sets \<^verbatim>\<open>[...]\<close> and \<^verbatim>\<open>[^...]\<close> of plain
  characters, groups \<^verbatim>\<open>(...)\<close>, alternation, and the repeats \<^verbatim>\<open>* + ? {m} {m,n}\<close> with their
  lazy forms. For every other pattern (a backslash, \<^verbatim>\<open>^\<close>, \<^verbatim>\<open>$\<close>, \<^verbatim>\<open>(?\<close>, a range in a
  set, a possessive repeat), and for every text with a code point beyond 255, the
  library's answer is left open: it is whatever the field \<open>re_other\<close> of the parameter
  \<open>lib\<close> returns. Limits of time and memory are not modelled.
\<close>

datatype atom = Lit char | AnyChar | CharSet bool "char list"

datatype regex =
    Fail
  | Eps
  | Atom atom
  | Seq regex regex
  | Alt regex regex
  | Repeat regex nat "nat option"

text \<open>One character against one atom; \<open>icase\<close> is the flag \<^verbatim>\<open>re.IGNORECASE\<close>. Without
  \<^verbatim>\<open>re.DOTALL\<close> the dot takes every character but the newline. In \<open>CharSet neg cs\<close>,
  \<open>neg\<close> says that the set was written \<^verbatim>\<open>[^...]\<close>.\<close>

fun atom_accepts :: "bool \<Rightarrow> atom \<Rightarrow> char \<Rightarrow> bool" where
  "atom_accepts icase (Lit d) c =
     (if icase then py_lower_char c = py_lower_char d else c = d)"
| "atom_accepts icase AnyChar c = (c \<noteq> CHR 0x0A)"
| "atom_accepts icase (CharSet neg cs) c =
     ((if icase then py_lower_char c \<in> set (map py_lower_char cs) else c \<in> set cs) \<noteq> neg)"

fun bounds_ok :: "nat \<Rightarrow> nat option \<Rightarrow> bool" where
  "bounds_ok lo None = True"
| "bounds_ok lo (Some hi) = (lo \<le> hi)"

fun nullable :: "regex \<Rightarrow> bool" where
  "nullable Fail = False"
| "nullable Eps = True"
| "nullable (Atom a) = False"
| "nullable (Seq r s) = (nullable r \<and> nullable s)"
| "nullable (Alt r s) = (nullable r \<or> nullable s)"
| "nullable (Repeat r lo hi) = ((lo = 0 \<or> nullable r) \<and> bounds_ok lo hi)"

text \<open>What is left of the expression once the character \<open>c\<close> has been read.\<close>

fun deriv :: "bool \<Rightarrow> char \<Rightarrow> regex \<Rightarrow> regex" where
  "deriv icase c Fail = Fail"
| "deriv icase c Eps = Fail"
| "deriv icase c (Atom a) = (if atom_accepts icase a c then Eps else Fail)"
| "deriv icase c (Seq r s) =
     (if nullable r then Alt (Seq (deriv icase c r) s) (deriv icase c s)
      else Seq (deriv icase c r) s)"
| "deriv icase c (Alt r s) = Alt (deriv icase c r) (deriv icase c s)"
| "deriv icase c (Repeat r lo None) = Seq (deriv icase c r) (Repeat r (lo - 1) None)"
| "deriv icase c (Repeat r lo (Some hi)) =
     (if hi = 0 \<or> hi < lo then Fail
      else Seq (deriv icase c r) (Repeat r (lo - 1) (Some (hi - 1))))"

text \<open>\<open>full_match\<close>: the whole string is matched. \<open>match_prefix\<close>: some prefix of the
  string is matched, which is when \<^verbatim>\<open>re.match\<close> returns a match object. \<open>search_anywhere\<close>:
  the pattern is matched from some position on, which is when \<^verbatim>\<open>re.search\<close> returns a
  match object.\<close>

fun full_match :: "bool \<Rightarrow> regex \<Rightarrow> string \<Rightarrow> bool" where
  "full_match icase r [] = nullable r"
| "full_match icase r (c # cs) = full_match icase (deriv icase c r) cs"

fun match_prefix :: "bool \<Rightarrow> regex \<Rightarrow> string \<Rightarrow> bool" where
  "match_prefix icase r [] = nullable r"
| "match_prefix icase r (c # cs) = (nullable r \<or> match_prefix icase (deriv icase c r) cs)"

fun search_anywhere :: "bool \<Rightarrow> regex \<Rightarrow> string \<Rightarrow> bool" where
  "search_anywhere icase r [] = nullable r"
| "search_anywhere icase r (c # cs) =
     (match_prefix icase r (c # cs) \<or> search_anywhere icase r cs)"

text \<open>The strings an expression stands for, as sets: the reference for the three
  functions above.\<close>

definition conc :: "string set \<Rightarrow> string set \<Rightarrow> string set" where
  "conc A B = {u @ v | u v. u \<in> A \<and> v \<in> B}"

fun lpow :: "string set \<Rightarrow> nat \<Rightarrow> string set" where
  "lpow A 0 = {[]}"
| "lpow A (Suc n) = conc A (lpow A n)"

definition in_bounds :: "nat \<Rightarrow> nat option \<Rightarrow> nat \<Rightarrow> bool" where
  "in_bounds lo hi k = (lo \<le> k \<and> (case hi of None \<Rightarrow> True | Some h \<Rightarrow> k \<le> h))"

fun lang :: "bool \<Rightarrow> regex \<Rightarrow> string set" where
  "lang icase Fail = {}"
| "lang icase Eps = {[]}"
| "lang icase (Atom a) = {[c] | c. atom_accepts icase a c}"
| "lang icase (Seq r s) = conc (lang icase r) (lang icase s)"
| "lang icase (Alt r s) = lang icase r \<union> lang icase s"
| "lang icase (Repeat r lo hi) = (\<Union>k \<in> {k. in_bounds lo hi k}. lpow (lang icase r) k)"

subsubsection \<open>Reading a pattern\<close>

datatype parse_result = Parsed regex | PatternError | TooLarge | Unmodelled

text \<open>A set, read after its \<^verbatim>\<open>[\<close>: a \<^verbatim>\<open>]\<close> closes it unless it is the first item; the end
  of the pattern before that is the error "unterminated character set".\<close>

datatype class_result = ClassOk "char list" string | ClassUnterminated | ClassUnmodelled

fun class_items :: "string \<Rightarrow> char list \<Rightarrow> class_result" where
  "class_items [] acc = ClassUnterminated"
| "class_items (c # cs) acc =
     (if c = CHR '']'' \<and> acc \<noteq> [] then ClassOk acc cs
      else if c = CHR 0x5C then ClassUnmodelled
      else if cs \<noteq> [] \<and> hd cs = CHR ''-'' then ClassUnmodelled
      else class_items cs (acc @ [c]))"

text \<open>A repeat, read after its first character. \<^verbatim>\<open>{\<close> opens a repeat only when digits, an
  optional comma, digits and \<^verbatim>\<open>}\<close> follow; otherwise it is a literal brace. A count of
  \<open>MAXREPEAT\<close> or more is refused with \<^verbatim>\<open>OverflowError\<close>, which is not a \<^verbatim>\<open>re.error\<close>.\<close>

definition MAXREPEAT :: int where
  "MAXREPEAT = 4294967295"

definition is_digit :: "char \<Rightarrow> bool" where
  "is_digit c = (CHR ''0'' \<le> c \<and> c \<le> CHR ''9'')"

definition int_of_digits :: "string \<Rightarrow> int" where
  "int_of_digits ds = foldl (\<lambda>n d. 10 * n + (of_char d - 48)) 0 ds"

datatype repeat_result =
    RepeatLiteral
  | RepeatOverflow
  | RepeatMinMax
  | RepeatSpec nat "nat option" string

definition parse_brace :: "string \<Rightarrow> repeat_result" where
  "parse_brace cs =
     (if cs \<noteq> [] \<and> hd cs = CHR ''}'' then RepeatLiteral
      else
        let lo = takeWhile is_digit cs;
            r1 = dropWhile is_digit cs;
            comma = (r1 \<noteq> [] \<and> hd r1 = CHR '','');
            hi = (if comma then takeWhile is_digit (tl r1) else lo);
            r2 = (if comma then dropWhile is_digit (tl r1) else r1)
        in if \<not> (r2 \<noteq> [] \<and> hd r2 = CHR ''}'') then RepeatLiteral
           else if lo \<noteq> [] \<and> MAXREPEAT \<le> int_of_digits lo then RepeatOverflow
           else if hi \<noteq> [] \<and> MAXREPEAT \<le> int_of_digits hi then RepeatOverflow
           else if hi \<noteq> [] \<and> int_of_digits hi < (if lo = [] then 0 else int_of_digits lo)
             then RepeatMinMax
           else RepeatSpec (if lo = [] then 0 else nat (int_of_digits lo))
                  (if hi = [] then None else Some (nat (int_of_digits hi))) (tl r2))"

definition quantifier :: "char \<Rightarrow> string \<Rightarrow> repeat_result" where
  "quantifier c cs =
     (if c = CHR ''?'' then RepeatSpec 0 (Some 1) cs
      else if c = CHR ''*'' then RepeatSpec 0 None cs
      else if c = CHR ''+'' then RepeatSpec 1 None cs
      else parse_brace cs)"

text \<open>The items of the branch being read are kept last first, each with a mark that says
  whether it is itself a repeat; \<open>alts\<close> holds the finished branches of the group.\<close>

type_synonym frame = "regex list \<times> (regex \<times> bool) list"

definition seq_of :: "(regex \<times> bool) list \<Rightarrow> regex" where
  "seq_of items = foldl (\<lambda>acc it. Seq (fst it) acc) Eps items"

fun alt_of :: "regex list \<Rightarrow> regex" where
  "alt_of [] = Fail"
| "alt_of [r] = r"
| "alt_of (r # rs) = Alt r (alt_of rs)"

definition close_frame :: "frame \<Rightarrow> regex" where
  "close_frame fr = alt_of (fst fr @ [seq_of (snd fr)])"

lemma class_items_shorter:
  "class_items cs acc = ClassOk items rest \<Longrightarrow> length rest < length cs"
  by (induction cs acc rule: class_items.induct) (auto split: if_splits)

lemma parse_brace_shorter:
  "parse_brace cs = RepeatSpec lo hi rest \<Longrightarrow> length rest < length cs"
proof -
  assume a: "parse_brace cs = RepeatSpec lo hi rest"
  have d: "length (dropWhile is_digit xs) \<le> length xs" for xs
    by (simp add: length_dropWhile_le)
  have t: "xs \<noteq> [] \<Longrightarrow> length (tl xs) < length xs" for xs :: string
    by (cases xs) auto
  show ?thesis
  proof (cases "dropWhile is_digit cs \<noteq> [] \<and> hd (dropWhile is_digit cs) = CHR '',''")
    case True
    with a have r: "rest = tl (dropWhile is_digit (tl (dropWhile is_digit cs)))"
      and ne: "dropWhile is_digit (tl (dropWhile is_digit cs)) \<noteq> []"
      by (auto simp: parse_brace_def Let_def split: if_splits)
    have "length rest < length (dropWhile is_digit (tl (dropWhile is_digit cs)))"
      using r t [OF ne] by simp
    also have "\<dots> \<le> length (tl (dropWhile is_digit cs))" by (rule d)
    also have "\<dots> \<le> length (dropWhile is_digit cs)" by simp
    also have "\<dots> \<le> length cs" by (rule d)
    finally show ?thesis .
  next
    case False
    with a have r: "rest = tl (dropWhile is_digit cs)" and ne: "dropWhile is_digit cs \<noteq> []"
      by (auto simp: parse_brace_def Let_def split: if_splits)
    have "length rest < length (dropWhile is_digit cs)" using r t [OF ne] by simp
    also have "\<dots> \<le> length cs" by (rule d)
    finally show ?thesis .
  qed
qed

lemma quantifier_shorter:
  "quantifier c cs = RepeatSpec lo hi rest \<Longrightarrow> length rest \<le> length cs"
  by (auto simp: quantifier_def split: if_splits dest: parse_brace_shorter)

text \<open>One step of the reader: the character \<open>c\<close> with the rest \<open>cs\<close> of the pattern
  behind it either ends the reading or leaves a shorter rest.\<close>

datatype step_result = Stop parse_result | Continue string frame "frame list"

definition read_set :: "string \<Rightarrow> frame \<Rightarrow> frame list \<Rightarrow> step_result" where
  "read_set cs fr stack =
     (case class_items (if cs \<noteq> [] \<and> hd cs = CHR ''^'' then tl cs else cs) [] of
        ClassOk items rest \<Rightarrow>
          Continue rest
            (fst fr, (Atom (CharSet (cs \<noteq> [] \<and> hd cs = CHR ''^'') items), False) # snd fr)
            stack
      | ClassUnterminated \<Rightarrow> Stop PatternError
      | ClassUnmodelled \<Rightarrow> Stop Unmodelled)"

definition read_repeat :: "char \<Rightarrow> string \<Rightarrow> frame \<Rightarrow> frame list \<Rightarrow> step_result" where
  "read_repeat c cs fr stack =
     (case quantifier c cs of
        RepeatLiteral \<Rightarrow> Continue cs (fst fr, (Atom (Lit c), False) # snd fr) stack
      | RepeatOverflow \<Rightarrow> Stop TooLarge
      | RepeatMinMax \<Rightarrow> Stop PatternError
      | RepeatSpec lo hi rest \<Rightarrow>
          (case snd fr of
             [] \<Rightarrow> Stop PatternError
           | item # items \<Rightarrow>
               if snd item then Stop PatternError
               else if rest \<noteq> [] \<and> hd rest = CHR ''+'' then Stop Unmodelled
               else Continue (if rest \<noteq> [] \<and> hd rest = CHR ''?'' then tl rest else rest)
                      (fst fr, (Repeat (fst item) lo hi, True) # items) stack))"

definition parse_step :: "char \<Rightarrow> string \<Rightarrow> frame \<Rightarrow> frame list \<Rightarrow> step_result" where
  "parse_step c cs fr stack =
     (if c = CHR 0x5C \<or> c = CHR ''^'' \<or> c = CHR ''$'' then Stop Unmodelled
      else if c = CHR ''.'' then Continue cs (fst fr, (Atom AnyChar, False) # snd fr) stack
      else if c = CHR ''['' then read_set cs fr stack
      else if c = CHR ''('' then
        (if cs \<noteq> [] \<and> hd cs = CHR ''?'' then Stop Unmodelled
         else Continue cs ([], []) (fr # stack))
      else if c = CHR '')'' then
        (case stack of
           [] \<Rightarrow> Stop PatternError
         | parent # stack' \<Rightarrow>
             Continue cs (fst parent, (close_frame fr, False) # snd parent) stack')
      else if c = CHR ''|'' then Continue cs (fst fr @ [seq_of (snd fr)], []) stack
      else if c = CHR ''*'' \<or> c = CHR ''+'' \<or> c = CHR ''?'' \<or> c = CHR ''{'' then
        read_repeat c cs fr stack
      else Continue cs (fst fr, (Atom (Lit c), False) # snd fr) stack)"

lemma read_set_shorter:
  "read_set cs fr stack = Continue rest fr' stack' \<Longrightarrow> length rest \<le> length cs"
  by (auto simp: read_set_def split: class_result.splits if_splits
      dest!: class_items_shorter)

lemma read_repeat_shorter:
  assumes "read_repeat c cs fr stack = Continue rest fr' stack'"
  shows "length rest \<le> length cs"
proof (cases "quantifier c cs")
  case RepeatLiteral
  then show ?thesis using assms by (simp add: read_repeat_def)
next
  case (RepeatSpec lo hi r)
  then have "length r \<le> length cs" by (rule quantifier_shorter)
  moreover have "rest = r \<or> rest = tl r"
    using assms RepeatSpec by (auto simp: read_repeat_def split: list.splits if_splits)
  ultimately show ?thesis by (cases r) auto
qed (use assms in \<open>simp_all add: read_repeat_def\<close>)

lemma parse_step_shorter:
  assumes "parse_step c cs fr stack = Continue rest fr' stack'"
  shows "length rest \<le> length cs"
proof -
  consider (set) "parse_step c cs fr stack = read_set cs fr stack"
    | (rep) "parse_step c cs fr stack = read_repeat c cs fr stack"
    | (same) "rest = cs"
    using assms by (auto simp: parse_step_def split: if_splits list.splits)
  then show ?thesis
  proof cases
    case set
    then show ?thesis using assms read_set_shorter by metis
  next
    case rep
    then show ?thesis using assms read_repeat_shorter by metis
  next
    case same
    then show ?thesis by simp
  qed
qed

text \<open>At the end of the pattern a group still open is the error "missing )".\<close>

function re_parse_from :: "string \<Rightarrow> frame \<Rightarrow> frame list \<Rightarrow> parse_result" where
  "re_parse_from [] fr stack =
     (if stack = [] then Parsed (close_frame fr) else PatternError)"
| "re_parse_from (c # cs) fr stack =
     (case parse_step c cs fr stack of
        Stop res \<Rightarrow> res
      | Continue rest fr' stack' \<Rightarrow> re_parse_from rest fr' stack')"
  by pat_completeness auto
termination
proof (relation "measure (\<lambda>(s, fr, stack). length s)", goal_cases)
  case 1
  show ?case by simp
next
  case (2 c cs fr stack rest fr' stack')
  then have "length rest \<le> length cs" by (rule parse_step_shorter)
  then show ?case by simp
qed

declare re_parse_from.simps [simp del]

text \<open>A backslash anywhere leaves the pattern to \<open>lib\<close>: the library reads one token ahead
  and refuses a backslash that ends the pattern before it looks at what precedes it.\<close>

definition re_parse :: "string \<Rightarrow> parse_result" where
  "re_parse pattern =
     (if CHR 0x5C \<in> set pattern then Unmodelled else re_parse_from pattern ([], []) [])"


subsubsection \<open>\<^verbatim>\<open>re.search\<close> and \<^verbatim>\<open>re.match\<close>\<close>

datatype py_exception = OverflowError | KeyError

text \<open>What a call of the library does: it returns a match object, returns \<^verbatim>\<open>None\<close>, raises
  \<^verbatim>\<open>re.error\<close>, or raises something else.\<close>

datatype re_outcome = Matched | NoMatch | ReError | Raised py_exception

datatype re_fn = Search | Match

text \<open>What the model takes from Python as it is: the answers of \<^verbatim>\<open>re\<close> outside the modelled
  syntax, and the three tables of the Unicode database that \<^verbatim>\<open>str.lower\<close> reads (the full
  lower-case mapping of a code point, the properties Cased and Case_Ignorable).\<close>

record python_library =
  re_other :: "re_fn \<Rightarrow> bool \<Rightarrow> unicode \<Rightarrow> unicode \<Rightarrow> re_outcome"
  to_lower_full :: "int \<Rightarrow> unicode"
  is_cased :: "int \<Rightarrow> bool"
  is_case_ignorable :: "int \<Rightarrow> bool"

definition re_run :: "python_library \<Rightarrow> re_fn \<Rightarrow> bool \<Rightarrow> string \<Rightarrow> string \<Rightarrow> re_outcome" where
  "re_run lib fn icase pattern s =
     (case re_parse pattern of
        Parsed r \<Rightarrow>
          if (case fn of Search \<Rightarrow> search_anywhere icase r s | Match \<Rightarrow> match_prefix icase r s)
          then Matched else NoMatch
      | PatternError \<Rightarrow> ReError
      | TooLarge \<Rightarrow> Raised OverflowError
      | Unmodelled \<Rightarrow> re_other lib fn icase (text_of pattern) (text_of s))"

text \<open>\<^verbatim>\<open>re.search(pattern, prompt, re.IGNORECASE)\<close> and \<^verbatim>\<open>re.match(regex_pattern, file_path)\<close>.\<close>

definition re_search_ignorecase :: "python_library \<Rightarrow> unicode \<Rightarrow> unicode \<Rightarrow> re_outcome" where
  "re_search_ignorecase lib pattern s =
     (if latin1 pattern \<and> latin1 s then re_run lib Search True (chars_of pattern) (chars_of s)
      else re_other lib Search True pattern s)"

definition re_match :: "python_library \<Rightarrow> string \<Rightarrow> string \<Rightarrow> re_outcome" where
  "re_match lib pattern s = re_run lib Match False pattern s"

subsection \<open>The standard library: \<^verbatim>\<open>str.lower\<close> and the division of integers\<close>

text \<open>
  \<^verbatim>\<open>s.lower()\<close> replaces every code point by its full lower-case mapping, which may be
  several code points. The capital sigma (931) is the exception: it becomes the final
  sigma (962) when a cased code point precedes it and none follows it, code points that
  are Case_Ignorable being skipped on both sides, and the small sigma (963) otherwise.
  \<open>before\<close> holds the code points already read, the nearest first.
\<close>

definition final_sigma :: "python_library \<Rightarrow> unicode \<Rightarrow> unicode \<Rightarrow> bool" where
  "final_sigma lib before after =
     (let b = dropWhile (is_case_ignorable lib) before;
          a = dropWhile (is_case_ignorable lib) after
      in b \<noteq> [] \<and> is_cased lib (hd b) \<and> (a = [] \<or> \<not> is_cased lib (hd a)))"

fun lower_from :: "python_library \<Rightarrow> unicode \<Rightarrow> unicode \<Rightarrow> unicode" where
  "lower_from lib before [] = []"
| "lower_from lib before (c # rest) =
     (if c = 931 then [if final_sigma lib before rest then 962 else 963]
      else to_lower_full lib c)
     @ lower_from lib (c # before) rest"

definition str_lower :: "python_library \<Rightarrow> unicode \<Rightarrow> unicode" where
  "str_lower lib s = lower_from lib [] s"

text \<open>
  \<^verbatim>\<open>a / b\<close> on integers is a float: the double nearest to the quotient, the even one of two
  that are equally near. \<open>double_exponent a b\<close> is the exponent of the quotient, the
  greatest \<open>e\<close> with \<open>2 ^ e \<le> a / b\<close>; a double has 53 binary digits, and below
  \<open>2 ^ - 1022\<close> the spacing of the doubles stays \<open>2 ^ - 1074\<close>. The value of the double
  is kept as a rational number. A quotient too large for a double does not occur: the
  score is at most the maximal score.
\<close>

definition double_exponent :: "int \<Rightarrow> int \<Rightarrow> int" where
  "double_exponent a b =
     (let e0 = bitlen a - bitlen b
      in if (if 0 \<le> e0 then b * 2 ^ nat e0 \<le> a else b \<le> a * 2 ^ nat (- e0))
         then e0 else e0 - 1)"

definition round_half_even :: "int \<Rightarrow> int \<Rightarrow> int" where
  "round_half_even n d =
     (let f = n div d; r = n mod d
      in if 2 * r < d then f
         else if d < 2 * r then f + 1
         else if even f then f else f + 1)"

definition nearest_double :: "int \<Rightarrow> int \<Rightarrow> rat" where
  "nearest_double a b =
     (if a = 0 then 0
      else
        let p = max (double_exponent a b) (- 1022) - 52
        in if p \<le> 0
           then of_int (round_half_even (a * 2 ^ nat (- p)) b) / 2 ^ nat (- p)
           else of_int (round_half_even a (b * 2 ^ nat p)) * 2 ^ nat p)"

definition py_truediv :: "nat \<Rightarrow> nat \<Rightarrow> rat" where
  "py_truediv a b = nearest_double (int a) (int b)"

subsection \<open>The configuration\<close>

text \<open>
  \<^verbatim>\<open>skill-rules.json\<close> as \<^verbatim>\<open>json.load\<close> returns it. Every key may be missing (\<open>None\<close>); the
  script reads each with \<^verbatim>\<open>.get(key, default)\<close>. The field \<open>keywords_list\<close> is the key
  \<^verbatim>\<open>keywords\<close>. The skills are the items of a dictionary in its order of insertion.

  The threshold is the value of the number that \<^verbatim>\<open>json.load\<close> returns, an integer or a
  double, as a rational number; line 51 compares it with the double \<^verbatim>\<open>score / max_score\<close>,
  and comparing two such values is exact. The values \<^verbatim>\<open>NaN\<close> and \<^verbatim>\<open>Infinity\<close>, which are
  no numbers of JSON, are left out.
\<close>

record prompt_triggers =
  keywords_list :: "unicode list option"
  intentPatterns :: "unicode list option"

record file_triggers =
  pathPatterns :: "string list option"

record skill_config =
  priority :: "string option"
  promptTriggers :: "prompt_triggers option"
  fileTriggers :: "file_triggers option"
  activationMessage :: "string option"

record meta_config =
  confidenceThreshold :: "rat option"
  maxSimultaneousSkills :: "int option"
  autoActivationEnabled :: "bool option"

record skill_rules =
  skills :: "(string \<times> skill_config) list option"
  meta :: "meta_config option"

text \<open>\<^verbatim>\<open>d.get(key, default)\<close>, on the value found under the key.\<close>

definition dict_get :: "'a option \<Rightarrow> 'a \<Rightarrow> 'a" where
  "dict_get v dflt = (case v of None \<Rightarrow> dflt | Some x \<Rightarrow> x)"

definition no_prompt_triggers :: prompt_triggers where
  "no_prompt_triggers = \<lparr>keywords_list = None, intentPatterns = None\<rparr>"

definition no_file_triggers :: file_triggers where
  "no_file_triggers = \<lparr>pathPatterns = None\<rparr>"

definition no_meta :: meta_config where
  "no_meta =
     \<lparr>confidenceThreshold = None, maxSimultaneousSkills = None, autoActivationEnabled = None\<rparr>"

subsection \<open>\<^verbatim>\<open>analyze_prompt\<close>\<close>

text \<open>Lines 35 to 37: one point for each keyword that occurs in the lowered prompt.\<close>

fun check_keywords :: "python_library \<Rightarrow> unicode \<Rightarrow> unicode list \<Rightarrow> nat \<Rightarrow> nat" where
  "check_keywords lib prompt_lower [] score = score"
| "check_keywords lib prompt_lower (keyword # rest) score =
     check_keywords lib prompt_lower rest
       (if sublist (str_lower lib keyword) prompt_lower then score + 1 else score)"

text \<open>Lines 41 to 46: two points for each pattern found; \<^verbatim>\<open>re.error\<close> is caught and the
  loop goes on, any other exception leaves the function.\<close>

fun check_patterns :: "python_library \<Rightarrow> unicode \<Rightarrow> unicode list \<Rightarrow> nat \<Rightarrow> py_exception + nat" where
  "check_patterns lib prompt [] score = Inr score"
| "check_patterns lib prompt (pattern # rest) score =
     (case re_search_ignorecase lib pattern prompt of
        Matched \<Rightarrow> check_patterns lib prompt rest (score + 2)
      | NoMatch \<Rightarrow> check_patterns lib prompt rest score
      | ReError \<Rightarrow> check_patterns lib prompt rest score
      | Raised e \<Rightarrow> Inl e)"

definition prompt_score :: "python_library \<Rightarrow> unicode \<Rightarrow> prompt_triggers \<Rightarrow> py_exception + nat" where
  "prompt_score lib prompt triggers =
     check_patterns lib prompt (dict_get (intentPatterns triggers) [])
       (check_keywords lib (str_lower lib prompt) (dict_get (keywords_list triggers) []) 0)"

definition max_score :: "prompt_triggers \<Rightarrow> nat" where
  "max_score triggers =
     length (dict_get (keywords_list triggers) []) + length (dict_get (intentPatterns triggers) []) * 2"

text \<open>Lines 49 to 52, the test that adds the skill to the matches. The literal
  \<^verbatim>\<open>0.6\<close> of line 49 is the double nearest to 3/5.\<close>

definition default_threshold :: rat where
  "default_threshold = nearest_double 3 5"

definition threshold_met :: "rat \<Rightarrow> nat \<Rightarrow> nat \<Rightarrow> bool" where
  "threshold_met threshold score mx = (mx > 0 \<and> py_truediv score mx \<ge> threshold)"

definition prompt_matched ::
    "python_library \<Rightarrow> unicode \<Rightarrow> rat \<Rightarrow> prompt_triggers \<Rightarrow> py_exception + bool" where
  "prompt_matched lib prompt threshold triggers =
     (case prompt_score lib prompt triggers of
        Inl e \<Rightarrow> Inl e
      | Inr score \<Rightarrow> Inr (threshold_met threshold score (max_score triggers)))"

fun analyze_prompt_loop ::
    "python_library \<Rightarrow> unicode \<Rightarrow> rat \<Rightarrow> (string \<times> skill_config) list \<Rightarrow> string set
      \<Rightarrow> py_exception + string set" where
  "analyze_prompt_loop lib prompt threshold [] matches = Inr matches"
| "analyze_prompt_loop lib prompt threshold ((skill_name, config) # rest) matches =
     (case prompt_matched lib prompt threshold
             (dict_get (promptTriggers config) no_prompt_triggers) of
        Inl e \<Rightarrow> Inl e
      | Inr hit \<Rightarrow>
          analyze_prompt_loop lib prompt threshold rest
            (if hit then insert skill_name matches else matches))"

definition analyze_prompt :: "python_library \<Rightarrow> unicode \<Rightarrow> skill_rules \<Rightarrow> py_exception + string set" where
  "analyze_prompt lib prompt rules =
     analyze_prompt_loop lib prompt
       (dict_get (confidenceThreshold (dict_get (meta rules) no_meta)) default_threshold)
       (dict_get (skills rules) []) {}"

subsection \<open>\<^verbatim>\<open>analyze_file_context\<close>\<close>

text \<open>Lines 90 and 91: the glob pattern becomes a regular expression by five replacements,
  one after the other.\<close>

definition glob_to_regex :: "string \<Rightarrow> string" where
  "glob_to_regex pattern =
     str_replace '','' ''|''
       (str_replace ''}'' '')''
         (str_replace ''{'' ''(''
           (str_replace ''*'' ''[^/]*''
             (str_replace ''**'' ''.*'' pattern))))"

text \<open>Lines 88 to 97 for one file: \<open>True\<close> when a pattern matched (the loop is left by
  \<^verbatim>\<open>break\<close>), \<open>False\<close> when the patterns are used up.\<close>

fun check_path_patterns :: "python_library \<Rightarrow> string \<Rightarrow> string list \<Rightarrow> py_exception + bool" where
  "check_path_patterns lib file_path [] = Inr False"
| "check_path_patterns lib file_path (pattern # rest) =
     (case re_match lib (glob_to_regex pattern) file_path of
        Matched \<Rightarrow> Inr True
      | NoMatch \<Rightarrow> check_path_patterns lib file_path rest
      | ReError \<Rightarrow> check_path_patterns lib file_path rest
      | Raised e \<Rightarrow> Inl e)"

text \<open>Lines 87 to 97: every modified file is tried, also after a match.\<close>

fun check_files ::
    "python_library \<Rightarrow> string list \<Rightarrow> string list \<Rightarrow> string \<Rightarrow> string set
      \<Rightarrow> py_exception + string set" where
  "check_files lib [] path_patterns skill_name matches = Inr matches"
| "check_files lib (file_path # rest) path_patterns skill_name matches =
     (case check_path_patterns lib file_path path_patterns of
        Inl e \<Rightarrow> Inl e
      | Inr hit \<Rightarrow>
          check_files lib rest path_patterns skill_name
            (if hit then insert skill_name matches else matches))"

fun file_context_loop ::
    "python_library \<Rightarrow> string list \<Rightarrow> (string \<times> skill_config) list \<Rightarrow> string set
      \<Rightarrow> py_exception + string set" where
  "file_context_loop lib modified_files [] matches = Inr matches"
| "file_context_loop lib modified_files ((skill_name, config) # rest) matches =
     (case check_files lib modified_files
             (dict_get (pathPatterns (dict_get (fileTriggers config) no_file_triggers)) [])
             skill_name matches of
        Inl e \<Rightarrow> Inl e
      | Inr matches' \<Rightarrow> file_context_loop lib modified_files rest matches')"

text \<open>The list \<open>modified_files\<close> is the one lines 73 to 79 build from the output of
  \<^verbatim>\<open>git status --short\<close>. When git fails, is missing or takes too long, no file is checked
  and no skill matches, as with the empty list.\<close>

definition analyze_file_context ::
    "python_library \<Rightarrow> string list \<Rightarrow> skill_rules \<Rightarrow> py_exception + string set" where
  "analyze_file_context lib modified_files rules =
     file_context_loop lib modified_files (dict_get (skills rules) []) {}"

subsection \<open>\<^verbatim>\<open>main\<close>\<close>

text \<open>The dictionary \<^verbatim>\<open>priority_order\<close> of line 158.\<close>

definition priority_order :: "string \<Rightarrow> nat option" where
  "priority_order p =
     (if p = ''high'' then Some 0
      else if p = ''medium'' then Some 1
      else if p = ''low'' then Some 2
      else None)"

definition skill_rank :: "skill_config \<Rightarrow> nat" where
  "skill_rank config = dict_get (priority_order (dict_get (priority config) ''medium'')) 1"

text \<open>Lines 155 to 159. \<^verbatim>\<open>skill_rules["skills"][skill_name]\<close> raises \<^verbatim>\<open>KeyError\<close> for a name
  that is not configured.\<close>

fun prioritize ::
    "(string \<times> skill_config) list \<Rightarrow> string list \<Rightarrow> py_exception + (string \<times> nat) list" where
  "prioritize sk [] = Inr []"
| "prioritize sk (skill_name # rest) =
     (case map_of sk skill_name of
        None \<Rightarrow> Inl KeyError
      | Some config \<Rightarrow>
          (case prioritize sk rest of
             Inl e \<Rightarrow> Inl e
           | Inr ps \<Rightarrow> Inr ((skill_name, skill_rank config) # ps)))"

text \<open>\<^verbatim>\<open>xs[:n]\<close>: a negative \<open>n\<close> counts from the end.\<close>

definition py_slice_to :: "int \<Rightarrow> 'a list \<Rightarrow> 'a list" where
  "py_slice_to n xs = (if 0 \<le> n then take (nat n) xs else take (length xs - nat (- n)) xs)"

text \<open>Lines 167 to 173.\<close>

definition reason_for :: "string set \<Rightarrow> string set \<Rightarrow> string \<Rightarrow> string" where
  "reason_for prompt_matches context_matches skill_name =
     str_join '' + ''
       ((if skill_name \<in> prompt_matches then [''Prompt keywords/patterns matched''] else []) @
        (if skill_name \<in> context_matches then [''Modified files matched''] else []))"

text \<open>
  \<open>main\<close> returns the list \<^verbatim>\<open>matched_with_reason\<close>, which the script then prints and logs;
  the early returns of lines 137 to 142 print nothing, which is the empty list. Python's
  \<^verbatim>\<open>sort\<close> is stable, as \<^const>\<open>sort_key\<close> is.

  The loop of line 156 runs over a set of strings. The order in which Python goes
  through such a set depends on the hashes of the strings, which change from one run to
  the next; \<open>iter\<close> is that order.
\<close>

type_synonym set_order = "string set \<Rightarrow> string list"

definition main ::
    "python_library \<Rightarrow> set_order \<Rightarrow> unicode \<Rightarrow> string list \<Rightarrow> skill_rules
      \<Rightarrow> py_exception + (string \<times> string) list" where
  "main lib iter prompt modified_files rules =
     (if dict_get (skills rules) [] = [] then Inr []
      else if \<not> dict_get (autoActivationEnabled (dict_get (meta rules) no_meta)) True
        then Inr []
      else
        (case analyze_prompt lib prompt rules of
           Inl e \<Rightarrow> Inl e
         | Inr prompt_matches \<Rightarrow>
             (case analyze_file_context lib modified_files rules of
                Inl e \<Rightarrow> Inl e
              | Inr context_matches \<Rightarrow>
                  (case prioritize (dict_get (skills rules) [])
                          (iter (prompt_matches \<union> context_matches)) of
                     Inl e \<Rightarrow> Inl e
                   | Inr prioritized \<Rightarrow>
                       Inr (map (\<lambda>(skill_name, rank).
                                   (skill_name,
                                    reason_for prompt_matches context_matches skill_name))
                              (py_slice_to
                                 (dict_get (maxSimultaneousSkills (dict_get (meta rules) no_meta)) 3)
                                 (sort_key snd prioritized)))))))"

text \<open>The rank line 159 gives to a name.\<close>

definition rank_of :: "(string \<times> skill_config) list \<Rightarrow> string \<Rightarrow> nat" where
  "rank_of sk n = (case map_of sk n of None \<Rightarrow> 1 | Some config \<Rightarrow> skill_rank config)"

text \<open>Two entries of the configuration that differ at most in how the priority is
  written: same name, same triggers, same rank.\<close>

definition ranked_alike :: "string \<times> skill_config \<Rightarrow> string \<times> skill_config \<Rightarrow> bool" where
  "ranked_alike a b =
     (fst a = fst b \<and> promptTriggers (snd a) = promptTriggers (snd b)
      \<and> fileTriggers (snd a) = fileTriggers (snd b) \<and> skill_rank (snd a) = skill_rank (snd b))"

text \<open>An order of iteration lists every member of a finite set once.\<close>

definition lists_each_once :: "set_order \<Rightarrow> bool" where
  "lists_each_once iter = (\<forall>S. finite S \<longrightarrow> set (iter S) = S \<and> distinct (iter S))"



text \<open>The characters of a glob pattern that the translation copies and that the regular
  expression reads as one character each: all but the operators of the two syntaxes. The
  full stop is among them. It is copied as it is, and in the expression it stands for any
  character but the line feed; every other one stands for itself. \<open>reads_as u m\<close> says
  that the text \<open>m\<close> is \<open>u\<close> read in this way, and \<open>lits u\<close> are the items that \<open>u\<close> leaves
  in a frame.\<close>

definition plain_char :: "char \<Rightarrow> bool" where
  "plain_char c = (c \<notin> set ''^$*+?{}[]()|,'' \<and> c \<noteq> CHR 0x5C)"

definition stands_for :: "char \<Rightarrow> char \<Rightarrow> bool" where
  "stands_for g c = (if g = CHR ''.'' then c \<noteq> CHR 0x0A else c = g)"

definition reads_as :: "string \<Rightarrow> string \<Rightarrow> bool" where
  "reads_as u m = list_all2 stands_for u m"

definition item_of :: "char \<Rightarrow> atom" where
  "item_of c = (if c = CHR ''.'' then AnyChar else Lit c)"

definition lits :: "string \<Rightarrow> (regex \<times> bool) list" where
  "lits u = map (\<lambda>c. (Atom (item_of c), False)) (rev u)"

subsection \<open>Concrete inputs\<close>

text \<open>
  An excerpt of the Unicode tables: the code points below 256 and the Greek letters from
  capital alpha (913) to small omega (969). Beyond them the excerpt answers as for a
  code point without case.
\<close>

definition excerpt_to_lower :: "int \<Rightarrow> unicode" where
  "excerpt_to_lower c =
     (if (65 \<le> c \<and> c \<le> 90) \<or> (192 \<le> c \<and> c \<le> 222 \<and> c \<noteq> 215)
         \<or> (913 \<le> c \<and> c \<le> 939 \<and> c \<noteq> 930)
      then [c + 32] else [c])"

definition excerpt_cased :: "int \<Rightarrow> bool" where
  "excerpt_cased c =
     ((65 \<le> c \<and> c \<le> 90) \<or> (97 \<le> c \<and> c \<le> 122) \<or> c = 170 \<or> c = 181 \<or> c = 186
      \<or> (192 \<le> c \<and> c \<le> 255 \<and> c \<noteq> 215 \<and> c \<noteq> 247)
      \<or> (913 \<le> c \<and> c \<le> 969 \<and> c \<noteq> 930))"

definition excerpt_case_ignorable :: "int \<Rightarrow> bool" where
  "excerpt_case_ignorable c =
     (c \<in> set [39, 46, 58, 94, 96, 168, 173, 175, 180, 183, 184])"

text \<open>A library with these tables that refuses every pattern it is asked about, and two
  orders of iteration: by ascending and by descending name.\<close>

definition refusing_lib :: python_library where
  "refusing_lib =
     \<lparr>re_other = (\<lambda>fn icase pattern s. ReError),
      to_lower_full = excerpt_to_lower,
      is_cased = excerpt_cased,
      is_case_ignorable = excerpt_case_ignorable\<rparr>"

definition ascending :: set_order where
  "ascending S = sorted_list_of_set S"

definition descending :: set_order where
  "descending S = rev (sorted_list_of_set S)"

definition skill ::
    "string option \<Rightarrow> string list \<Rightarrow> string list \<Rightarrow> string list \<Rightarrow> skill_config" where
  "skill prio kws pats globs =
     \<lparr>priority = prio,
      promptTriggers =
        Some \<lparr>keywords_list = Some (map text_of kws), intentPatterns = Some (map text_of pats)\<rparr>,
      fileTriggers = Some \<lparr>pathPatterns = Some globs\<rparr>,
      activationMessage = None\<rparr>"

definition example_skills :: "(string \<times> skill_config) list" where
  "example_skills =
     [(''voip'', skill (Some ''high'') [''voip''] [] []),
      (''testing'', skill (Some ''low'') [] [''(run|write).*tests?''] [''**/*.test.*'']),
      (''docs'', skill None [''readme''] [] [''docs/*''])]"

definition example_meta :: "int \<Rightarrow> bool \<Rightarrow> meta_config" where
  "example_meta n enabled =
     \<lparr>confidenceThreshold = Some (1 / 2), maxSimultaneousSkills = Some n,
      autoActivationEnabled = Some enabled\<rparr>"

definition example_rules :: "int \<Rightarrow> bool \<Rightarrow> skill_rules" where
  "example_rules n enabled = \<lparr>skills = Some example_skills, meta = Some (example_meta n enabled)\<rparr>"

text \<open>Two configurations with a broken first skill: a repeat count that is too large,
  and a group and a brace that are never closed.\<close>

definition overflow_rules :: skill_rules where
  "overflow_rules =
     \<lparr>skills = Some [(''broken'', skill None [] [''x{4294967296}''] []),
                     (''voip'', skill (Some ''high'') [''voip''] [] [])],
      meta = None\<rparr>"

definition unclosed_rules :: skill_rules where
  "unclosed_rules =
     \<lparr>skills = Some [(''broken'', skill None [] [''(unclosed''] [''{src/*'']),
                     (''voip'', skill (Some ''high'') [''voip''] [] [])],
      meta = None\<rparr>"

text \<open>Two skills of the same priority that match the same prompts.\<close>

definition tie_rules :: skill_rules where
  "tie_rules =
     \<lparr>skills = Some [(''X'', skill (Some ''medium'') [''deploy''] [] []),
                     (''Y'', skill (Some ''medium'') [''deploy''] [] [])],
      meta = None\<rparr>"



definition example_prompt :: unicode where
  "example_prompt = text_of ''Check VoIP quality, then run the tests''"

section \<open>Properties\<close>

subsection \<open>The result of \<open>main\<close>\<close>

lemma length_py_slice_to: "0 \<le> n \<Longrightarrow> length (py_slice_to n xs) \<le> nat n"
  by (simp add: py_slice_to_def)

lemma main_cases:
  assumes "main lib iter prompt files rules = Inr res"
  obtains (early) "res = []"
  | (ranked) pm cm pr where
      "analyze_prompt lib prompt rules = Inr pm"
      "analyze_file_context lib files rules = Inr cm"
      "prioritize (dict_get (skills rules) []) (iter (pm \<union> cm)) = Inr pr"
      "res = map (\<lambda>(skill_name, rank). (skill_name, reason_for pm cm skill_name))
               (py_slice_to (dict_get (maxSimultaneousSkills (dict_get (meta rules) no_meta)) 3)
                  (sort_key snd pr))"
  using assms
  by (auto simp: main_def split: if_splits sum.splits)

text \<open>
  C6. The result is never longer than \<^verbatim>\<open>meta.maxSimultaneousSkills\<close>, for a value that is
  not negative; with the value 0 the result is empty, whatever matched.
\<close>

theorem max_skills_bound:
  assumes "main lib iter prompt files rules = Inr res"
    and "meta rules = Some m" and "maxSimultaneousSkills m = Some n" and "0 \<le> n"
  shows "length res \<le> nat n \<and> (n = 0 \<longrightarrow> res = [])"
proof -
  have "length res \<le> nat n"
    using assms(1)
  proof (cases rule: main_cases)
    case early
    then show ?thesis by simp
  next
    case (ranked pm cm pr)
    then show ?thesis
      using assms(2-4) by (simp add: dict_get_def length_py_slice_to)
  qed
  then show ?thesis by auto
qed

theorem max_skills_bound_witness:
  "main refusing_lib ascending example_prompt [''src/app.test.ts''] (example_rules 1 True)
     = Inr [(''voip'', ''Prompt keywords/patterns matched'')]
   \<and> meta (example_rules 1 True) = Some (example_meta 1 True)
   \<and> maxSimultaneousSkills (example_meta 1 True) = Some 1
   \<and> length [(''voip'', ''Prompt keywords/patterns matched'')] \<le> nat 1"
proof -
  have run: "main refusing_lib ascending example_prompt [''src/app.test.ts''] (example_rules 1 True)
     = Inr [(''voip'', ''Prompt keywords/patterns matched'')]"
    by code_simp
  have m: "meta (example_rules 1 True) = Some (example_meta 1 True)"
    by (simp add: example_rules_def)
  have n: "maxSimultaneousSkills (example_meta 1 True) = Some 1"
    by (simp add: example_meta_def)
  from max_skills_bound [OF run m n] run m n show ?thesis
    by simp
qed

text \<open>
  C8. With \<^verbatim>\<open>meta.autoActivationEnabled\<close> false, or with the skills missing or empty,
  \<open>main\<close> returns the empty result, whatever the prompt and the files are.
\<close>

theorem disabled_or_unconfigured:
  assumes "(\<exists>m. meta rules = Some m \<and> autoActivationEnabled m = Some False)
           \<or> skills rules = None \<or> skills rules = Some []"
  shows "main lib iter prompt files rules = Inr []"
  using assms by (auto simp: main_def dict_get_def)

theorem disabled_or_unconfigured_witness:
  "meta (example_rules 3 False) = Some (example_meta 3 False)
   \<and> autoActivationEnabled (example_meta 3 False) = Some False
   \<and> main refusing_lib ascending example_prompt [''src/app.test.ts''] (example_rules 3 False)
       = Inr []"
proof -
  have m: "meta (example_rules 3 False) = Some (example_meta 3 False)"
    by (simp add: example_rules_def)
  have a: "autoActivationEnabled (example_meta 3 False) = Some False"
    by (simp add: example_meta_def)
  have "(\<exists>m. meta (example_rules 3 False) = Some m \<and> autoActivationEnabled m = Some False)
        \<or> skills (example_rules 3 False) = None \<or> skills (example_rules 3 False) = Some []"
    using m a by simp
  from disabled_or_unconfigured [OF this] m a show ?thesis
    by simp
qed


subsection \<open>Ranking\<close>

lemma prioritize_eq:
  "prioritize sk names = Inr pr \<Longrightarrow> pr = map (\<lambda>n. (n, rank_of sk n)) names"
  by (induction names arbitrary: pr) (auto simp: rank_of_def split: option.splits sum.splits)

lemma insort_key_pair:
  "insort_key snd (n, r n) (map (\<lambda>n. (n, r n)) xs) = map (\<lambda>n. (n, r n)) (insort_key r n xs)"
  by (induction xs) auto

lemma sort_key_pair:
  "sort_key snd (map (\<lambda>n. (n, r n)) xs) = map (\<lambda>n. (n, r n)) (sort_key r xs)"
  by (induction xs) (auto simp: insort_key_pair)

lemma py_slice_to_map: "py_slice_to n (map f xs) = map f (py_slice_to n xs)"
  by (simp add: py_slice_to_def take_map)

lemma py_slice_to_take: "\<exists>k. py_slice_to n xs = take k xs"
  by (auto simp: py_slice_to_def)

text \<open>The names of the result: the matches in the order of iteration, sorted by rank,
  cut to the first entries.\<close>

lemma main_names:
  assumes "main lib iter prompt files rules = Inr res" and "res \<noteq> []"
  obtains pm cm where
    "analyze_prompt lib prompt rules = Inr pm"
    "analyze_file_context lib files rules = Inr cm"
    "map fst res =
       py_slice_to (dict_get (maxSimultaneousSkills (dict_get (meta rules) no_meta)) 3)
         (sort_key (rank_of (dict_get (skills rules) [])) (iter (pm \<union> cm)))"
  using assms(1)
proof (cases rule: main_cases)
  case early
  with assms(2) show ?thesis by simp
next
  case (ranked pm cm pr)
  have "map fst res =
       py_slice_to (dict_get (maxSimultaneousSkills (dict_get (meta rules) no_meta)) 3)
         (sort_key (rank_of (dict_get (skills rules) [])) (iter (pm \<union> cm)))"
    unfolding ranked(4) prioritize_eq [OF ranked(3)] sort_key_pair
    by (simp add: py_slice_to_map [symmetric] comp_def case_prod_unfold)
  with ranked(1,2) that show ?thesis by blast
qed

lemma sorted_py_slice_to: "sorted (map f xs) \<Longrightarrow> sorted (map f (py_slice_to n xs))"
proof -
  assume s: "sorted (map f xs)"
  obtain k where k: "py_slice_to n xs = take k xs" using py_slice_to_take by blast
  have "sorted (take k (map f xs))" using s by (rule sorted_wrt_take)
  then show ?thesis by (simp add: k take_map)
qed

lemma main_sorted:
  assumes "main lib iter prompt files rules = Inr res"
  shows "sorted (map (rank_of (dict_get (skills rules) [])) (map fst res))"
proof (cases "res = []")
  case True
  then show ?thesis by simp
next
  case False
  from assms False obtain pm cm where
    "map fst res =
       py_slice_to (dict_get (maxSimultaneousSkills (dict_get (meta rules) no_meta)) 3)
         (sort_key (rank_of (dict_get (skills rules) [])) (iter (pm \<union> cm)))"
    by (rule main_names)
  then show ?thesis
    by (simp add: sorted_py_slice_to)
qed

lemma skill_rank_values:
  "priority c = Some ''high'' \<Longrightarrow> skill_rank c = 0"
  "priority c = Some ''medium'' \<Longrightarrow> skill_rank c = 1"
  "priority c = Some ''low'' \<Longrightarrow> skill_rank c = 2"
  by (simp_all add: skill_rank_def priority_order_def dict_get_def)

text \<open>
  C5. The result is ordered by priority: an entry whose skill has priority "high" stands
  before every entry whose skill has priority "medium" or "low", and an entry with
  "medium" before every entry with "low".
\<close>

theorem ranked_by_priority:
  assumes "main lib iter prompt files rules = Inr res" and "skills rules = Some sk"
    and "i < length res" and "j < length res"
    and "map_of sk (fst (res ! i)) = Some ci" and "map_of sk (fst (res ! j)) = Some cj"
    and "(priority ci = Some ''high'' \<and> (priority cj = Some ''medium'' \<or> priority cj = Some ''low''))
         \<or> (priority ci = Some ''medium'' \<and> priority cj = Some ''low'')"
  shows "i < j"
proof (rule ccontr)
  assume "\<not> i < j"
  then have ji: "j \<le> i" by simp
  have lt: "skill_rank ci < skill_rank cj"
    using assms(7) by (auto simp: skill_rank_values)
  have "sorted (map (rank_of sk) (map fst res))"
    using main_sorted [OF assms(1)] assms(2) by (simp add: dict_get_def)
  then have "map (rank_of sk) (map fst res) ! j \<le> map (rank_of sk) (map fst res) ! i"
    using ji assms(3) by (intro sorted_nth_mono) auto
  then have "rank_of sk (fst (res ! j)) \<le> rank_of sk (fst (res ! i))"
    using assms(3,4) by simp
  then have "skill_rank cj \<le> skill_rank ci"
    using assms(5,6) by (simp add: rank_of_def)
  with lt show False by simp
qed

theorem ranked_by_priority_witness:
  "main refusing_lib descending example_prompt [''docs/a.md'', ''src/app.test.ts'']
       (example_rules 3 True)
     = Inr [(''voip'', ''Prompt keywords/patterns matched''),
            (''docs'', ''Modified files matched''),
            (''testing'', ''Prompt keywords/patterns matched + Modified files matched'')]
   \<and> skills (example_rules 3 True) = Some example_skills
   \<and> map_of example_skills ''voip'' = Some (skill (Some ''high'') [''voip''] [] [])
   \<and> map_of example_skills ''testing''
       = Some (skill (Some ''low'') [] [''(run|write).*tests?''] [''**/*.test.*''])
   \<and> (0::nat) < 2"
proof -
  let ?res = "[(''voip'', ''Prompt keywords/patterns matched''),
            (''docs'', ''Modified files matched''),
            (''testing'', ''Prompt keywords/patterns matched + Modified files matched'')]"
  have run: "main refusing_lib descending example_prompt [''docs/a.md'', ''src/app.test.ts'']
       (example_rules 3 True) = Inr ?res"
    by code_simp
  have sk: "skills (example_rules 3 True) = Some example_skills"
    by (simp add: example_rules_def)
  have ci: "map_of example_skills (fst (?res ! 0)) = Some (skill (Some ''high'') [''voip''] [] [])"
    by (simp add: example_skills_def)
  have cj: "map_of example_skills (fst (?res ! 2))
       = Some (skill (Some ''low'') [] [''(run|write).*tests?''] [''**/*.test.*''])"
    by (simp add: example_skills_def)
  have "0 < (2::nat)"
    by (rule ranked_by_priority [OF run sk _ _ ci cj]) (simp_all add: skill_def)
  with run sk ci cj show ?thesis by simp
qed


subsection \<open>The matches are names of configured skills\<close>

lemma analyze_prompt_loop_subset:
  "analyze_prompt_loop lib prompt th sk matches = Inr S \<Longrightarrow> S \<subseteq> matches \<union> fst ` set sk"
proof (induction sk arbitrary: matches)
  case Nil
  then show ?case by simp
next
  case (Cons a sk)
  obtain name config where a: "a = (name, config)" by (cases a)
  from Cons.prems a obtain hit where
    s: "analyze_prompt_loop lib prompt th sk (if hit then insert name matches else matches) = Inr S"
    by (auto split: sum.splits)
  from Cons.IH [OF s] a show ?case by (auto split: if_splits)
qed

lemma check_files_subset:
  "check_files lib fs pats name matches = Inr S \<Longrightarrow> S \<subseteq> insert name matches"
proof (induction fs arbitrary: matches)
  case Nil
  then show ?case by auto
next
  case (Cons f fs)
  from Cons.prems obtain hit where
    s: "check_files lib fs pats name (if hit then insert name matches else matches) = Inr S"
    by (auto split: sum.splits)
  from Cons.IH [OF s] show ?case by (auto split: if_splits)
qed

lemma file_context_loop_subset:
  "file_context_loop lib fs sk matches = Inr S \<Longrightarrow> S \<subseteq> matches \<union> fst ` set sk"
proof (induction sk arbitrary: matches)
  case Nil
  then show ?case by simp
next
  case (Cons a sk)
  obtain name config where a: "a = (name, config)" by (cases a)
  from Cons.prems a obtain M where
    m: "check_files lib fs
          (dict_get (pathPatterns (dict_get (fileTriggers config) no_file_triggers)) [])
          name matches = Inr M"
    and s: "file_context_loop lib fs sk M = Inr S"
    by (auto split: sum.splits)
  from check_files_subset [OF m] Cons.IH [OF s] a show ?case by auto
qed

lemma analyze_prompt_finite: "analyze_prompt lib prompt rules = Inr S \<Longrightarrow> finite S"
  unfolding analyze_prompt_def
  by (drule analyze_prompt_loop_subset) (auto intro: finite_subset)

lemma analyze_file_context_finite: "analyze_file_context lib fs rules = Inr S \<Longrightarrow> finite S"
  unfolding analyze_file_context_def
  by (drule file_context_loop_subset) (auto intro: finite_subset)

text \<open>
  C7. No skill name stands twice in the result, also when the skill matched both by the
  prompt and by the modified files. The order of iteration lists each member of the set
  of matches once.
\<close>

theorem no_skill_twice:
  assumes "lists_each_once iter" and "main lib iter prompt files rules = Inr res"
  shows "distinct (map fst res)"
proof (cases "res = []")
  case True
  then show ?thesis by simp
next
  case False
  from assms(2) False obtain pm cm where
    pm: "analyze_prompt lib prompt rules = Inr pm" and
    cm: "analyze_file_context lib files rules = Inr cm" and
    names: "map fst res =
       py_slice_to (dict_get (maxSimultaneousSkills (dict_get (meta rules) no_meta)) 3)
         (sort_key (rank_of (dict_get (skills rules) [])) (iter (pm \<union> cm)))"
    by (rule main_names)
  have "finite (pm \<union> cm)"
    using analyze_prompt_finite [OF pm] analyze_file_context_finite [OF cm] by simp
  then have "distinct (iter (pm \<union> cm))"
    using assms(1) by (simp add: lists_each_once_def)
  then have d: "distinct (sort_key (rank_of (dict_get (skills rules) [])) (iter (pm \<union> cm)))"
    by simp
  obtain k where "map fst res =
      take k (sort_key (rank_of (dict_get (skills rules) [])) (iter (pm \<union> cm)))"
    using names py_slice_to_take by metis
  with d show ?thesis by simp
qed

lemma lists_each_once_ascending: "lists_each_once ascending"
  by (simp add: lists_each_once_def ascending_def)

lemma lists_each_once_descending: "lists_each_once descending"
  by (simp add: lists_each_once_def descending_def)

theorem no_skill_twice_witness:
  "lists_each_once ascending
   \<and> main refusing_lib ascending example_prompt [''src/app.test.ts''] (example_rules 3 True)
       = Inr [(''voip'', ''Prompt keywords/patterns matched''),
              (''testing'', ''Prompt keywords/patterns matched + Modified files matched'')]
   \<and> distinct (map fst [(''voip'', ''Prompt keywords/patterns matched''),
              (''testing'', ''Prompt keywords/patterns matched + Modified files matched'')])"
proof -
  have run: "main refusing_lib ascending example_prompt [''src/app.test.ts''] (example_rules 3 True)
       = Inr [(''voip'', ''Prompt keywords/patterns matched''),
              (''testing'', ''Prompt keywords/patterns matched + Modified files matched'')]"
    by code_simp
  from no_skill_twice [OF lists_each_once_ascending run] lists_each_once_ascending run
  show ?thesis by simp
qed


subsection \<open>Priorities\<close>

lemma analyze_prompt_loop_alike:
  "list_all2 ranked_alike sk sk' \<Longrightarrow>
     analyze_prompt_loop lib prompt th sk matches = analyze_prompt_loop lib prompt th sk' matches"
proof (induction sk sk' arbitrary: matches rule: list_all2_induct)
  case Nil
  show ?case by simp
next
  case (Cons a sk b sk')
  obtain n c where a: "a = (n, c)" by (cases a)
  obtain n' c' where b: "b = (n', c')" by (cases b)
  from Cons(1) a b have "n = n'" "promptTriggers c = promptTriggers c'"
    by (simp_all add: ranked_alike_def)
  then show ?case using Cons.IH a b by (simp split: sum.splits)
qed

lemma file_context_loop_alike:
  "list_all2 ranked_alike sk sk' \<Longrightarrow>
     file_context_loop lib fs sk matches = file_context_loop lib fs sk' matches"
proof (induction sk sk' arbitrary: matches rule: list_all2_induct)
  case Nil
  show ?case by simp
next
  case (Cons a sk b sk')
  obtain n c where a: "a = (n, c)" by (cases a)
  obtain n' c' where b: "b = (n', c')" by (cases b)
  from Cons(1) a b have "n = n'" "fileTriggers c = fileTriggers c'"
    by (simp_all add: ranked_alike_def)
  then show ?case using Cons.IH a b by (simp split: sum.splits)
qed

lemma map_of_alike:
  "list_all2 ranked_alike sk sk' \<Longrightarrow>
     rel_option (\<lambda>c c'. skill_rank c = skill_rank c') (map_of sk n) (map_of sk' n)"
proof (induction sk sk' rule: list_all2_induct)
  case Nil
  show ?case by simp
next
  case (Cons a sk b sk')
  then show ?case by (cases a; cases b) (auto simp: ranked_alike_def)
qed

lemma prioritize_alike:
  assumes "list_all2 ranked_alike sk sk'"
  shows "prioritize sk names = prioritize sk' names"
proof (induction names)
  case Nil
  show ?case by simp
next
  case (Cons n names)
  from map_of_alike [OF assms, of n] Cons show ?case
    by (cases "map_of sk n"; cases "map_of sk' n") (auto split: sum.splits)
qed

lemma main_alike:
  assumes "list_all2 ranked_alike sk sk'" and "skills rules = Some sk"
  shows "main lib iter prompt files (rules\<lparr>skills := Some sk'\<rparr>) = main lib iter prompt files rules"
proof -
  have e: "sk' = [] \<longleftrightarrow> sk = []"
    using assms(1) by (auto simp: list_all2_Nil list_all2_Nil2)
  have p: "analyze_prompt lib prompt (rules\<lparr>skills := Some sk'\<rparr>) = analyze_prompt lib prompt rules"
    using analyze_prompt_loop_alike [OF assms(1)] assms(2)
    by (simp add: analyze_prompt_def dict_get_def)
  have f: "analyze_file_context lib files (rules\<lparr>skills := Some sk'\<rparr>)
            = analyze_file_context lib files rules"
    using file_context_loop_alike [OF assms(1)] assms(2)
    by (simp add: analyze_file_context_def dict_get_def)
  show ?thesis
    unfolding main_def p f
    using e assms(2) prioritize_alike [OF assms(1)]
    by (simp add: dict_get_def cong: sum.case_cong)
qed

text \<open>
  C10. A skill whose configuration has no priority, or a priority other than "high",
  "medium" and "low", is treated as one of priority "medium": writing "medium" into
  its configuration changes nothing in what \<open>main\<close> returns.
\<close>

theorem unknown_priority_is_medium:
  assumes "skills rules = Some (before @ (name, config) # after)"
    and "priority config = None
         \<or> (\<exists>p. priority config = Some p \<and> p \<noteq> ''high'' \<and> p \<noteq> ''medium'' \<and> p \<noteq> ''low'')"
  shows "main lib iter prompt files rules =
         main lib iter prompt files
           (rules\<lparr>skills := Some (before @ (name, config\<lparr>priority := Some ''medium''\<rparr>) # after)\<rparr>)"
proof -
  have r: "skill_rank config = skill_rank (config\<lparr>priority := Some ''medium''\<rparr>)"
    using assms(2) by (auto simp: skill_rank_def priority_order_def dict_get_def)
  have refl: "list_all2 ranked_alike xs xs" for xs
    by (simp add: list_all2_refl ranked_alike_def)
  have "list_all2 ranked_alike (before @ (name, config) # after)
          (before @ (name, config\<lparr>priority := Some ''medium''\<rparr>) # after)"
    using r by (intro list_all2_appendI list.rel_intros refl) (simp add: ranked_alike_def)
  from main_alike [OF this assms(1)] show ?thesis by simp
qed

theorem unknown_priority_is_medium_witness:
  "skills (example_rules 3 True)
     = Some ([(''voip'', skill (Some ''high'') [''voip''] [] []),
              (''testing'', skill (Some ''low'') [] [''(run|write).*tests?''] [''**/*.test.*''])]
             @ (''docs'', skill None [''readme''] [] [''docs/*'']) # [])
   \<and> priority (skill None [''readme''] [] [''docs/*'']) = None
   \<and> main refusing_lib ascending example_prompt [''docs/a.md''] (example_rules 3 True) =
       main refusing_lib ascending example_prompt [''docs/a.md'']
         ((example_rules 3 True)\<lparr>skills :=
            Some ([(''voip'', skill (Some ''high'') [''voip''] [] []),
                   (''testing'', skill (Some ''low'') [] [''(run|write).*tests?''] [''**/*.test.*''])]
                  @ (''docs'', (skill None [''readme''] [] [''docs/*''])\<lparr>priority := Some ''medium''\<rparr>)
                    # [])\<rparr>)
   \<and> main refusing_lib ascending example_prompt [''docs/a.md''] (example_rules 3 True)
       = Inr [(''voip'', ''Prompt keywords/patterns matched''),
              (''docs'', ''Modified files matched''),
              (''testing'', ''Prompt keywords/patterns matched'')]"
proof -
  have sk: "skills (example_rules 3 True)
     = Some ([(''voip'', skill (Some ''high'') [''voip''] [] []),
              (''testing'', skill (Some ''low'') [] [''(run|write).*tests?''] [''**/*.test.*''])]
             @ (''docs'', skill None [''readme''] [] [''docs/*'']) # [])"
    by (simp add: example_rules_def example_skills_def)
  have p: "priority (skill None [''readme''] [] [''docs/*'']) = None"
    by (simp add: skill_def)
  have run: "main refusing_lib ascending example_prompt [''docs/a.md''] (example_rules 3 True)
       = Inr [(''voip'', ''Prompt keywords/patterns matched''),
              (''docs'', ''Modified files matched''),
              (''testing'', ''Prompt keywords/patterns matched'')]"
    by code_simp
  from unknown_priority_is_medium [OF sk disjI1 [OF p]] sk p run show ?thesis
    by blast
qed


subsection \<open>Scoring the prompt\<close>

lemma latin1_text_of: "latin1 (text_of s)"
proof -
  have "0 \<le> (of_char c :: int) \<and> (of_char c :: int) < 256" for c
    using pos_mod_sign [of 256 "of_char c :: int"] pos_mod_bound [of 256 "of_char c :: int"]
    by simp
  then show ?thesis
    by (simp add: latin1_def text_of_def list_all_iff)
qed

lemma chars_of_text_of: "chars_of (text_of s) = s"
  by (simp add: chars_of_def text_of_def comp_def)







subsection \<open>Patterns that do not compile\<close>

lemma overflow_pattern:
  "re_search_ignorecase lib (text_of ''x{4294967296}'') (text_of s) = Raised OverflowError"
proof -
  have "re_parse ''x{4294967296}'' = TooLarge" by code_simp
  then show ?thesis
    by (simp add: re_search_ignorecase_def re_run_def latin1_text_of chars_of_text_of)
qed

text \<open>
  C9. A trigger that does not compile is to count as no match and to leave the other
  skills alone. Line 45 catches \<^verbatim>\<open>re.error\<close> only: the intent pattern \<^verbatim>\<open>x{4294967296}\<close>
  is refused with \<^verbatim>\<open>OverflowError\<close>, and \<open>main\<close> raises it instead of reporting the skill
  "voip", whose keyword is in the prompt.
\<close>

theorem repeat_count_overflow_escapes:
  "main lib iter (text_of ''check voip quality'') [] overflow_rules = Inl OverflowError"
proof -
  have "analyze_prompt lib (text_of ''check voip quality'') overflow_rules = Inl OverflowError"
    by (simp add: analyze_prompt_def overflow_rules_def skill_def dict_get_def
        prompt_matched_def prompt_score_def overflow_pattern)
  then show ?thesis
    by (simp add: main_def overflow_rules_def dict_get_def no_meta_def)
qed

text \<open>A pattern refused with \<^verbatim>\<open>re.error\<close> is skipped, in both analyses.\<close>

lemma re_error_is_skipped:
  "main refusing_lib ascending (text_of ''check voip quality'') [''src/a.py''] unclosed_rules
     = Inr [(''voip'', ''Prompt keywords/patterns matched'')]"
  by code_simp


subsection \<open>Skills of equal priority\<close>

lemma split_two:
  assumes "a < b" and "b < length xs"
  shows "\<exists>A B C. xs = A @ xs ! a # B @ xs ! b # C"
proof -
  have 1: "xs = take a xs @ xs ! a # drop (Suc a) xs"
    using assms by (intro id_take_nth_drop) simp
  let ?ys = "drop (Suc a) xs"
  have b': "b - Suc a < length ?ys" using assms by simp
  have 2: "?ys = take (b - Suc a) ?ys @ ?ys ! (b - Suc a) # drop (Suc (b - Suc a)) ?ys"
    using b' by (rule id_take_nth_drop)
  have 3: "?ys ! (b - Suc a) = xs ! b" using assms by simp
  from 1 2 3 show ?thesis by metis
qed

lemma order_unique:
  assumes "distinct F" and "F = A @ y # B @ x # C" and "F = A' @ x # B' @ y # C'"
  shows False
proof -
  have y1: "y \<notin> set A" "y \<notin> set (B @ x # C)"
    using assms(1,2) by auto
  have "A @ y # (B @ x # C) = (A' @ x # B') @ y # C'"
    using assms(2,3) by simp
  then have "A = A' @ x # B'"
    using y1 append_Cons_eq_iff [of y A "B @ x # C" "A' @ x # B'" C'] by simp
  then have "x \<in> set A" by simp
  with assms(1,2) show False by auto
qed

text \<open>
  C4, as the code has it. Skills of equal rank keep the order in which the loop of line
  156 goes through the set of matches: when X and Y are both in the result with the same
  rank and X comes before Y in that iteration, X stands before Y in the result. That
  order is the one of a Python set; the order in which the skills were found is lost
  when their names are added to the sets.
\<close>

theorem ties_keep_iteration_order:
  assumes "lists_each_once iter"
    and "main lib iter prompt files rules = Inr res"
    and "analyze_prompt lib prompt rules = Inr pm"
    and "analyze_file_context lib files rules = Inr cm"
    and "skills rules = Some sk"
    and "a < b" and "b < length (iter (pm \<union> cm))"
    and "i < length res" and "j < length res"
    and "fst (res ! i) = iter (pm \<union> cm) ! a" and "fst (res ! j) = iter (pm \<union> cm) ! b"
    and "map_of sk (fst (res ! i)) = Some ci" and "map_of sk (fst (res ! j)) = Some cj"
    and "skill_rank ci = skill_rank cj"
  shows "i < j"
proof (rule ccontr)
  assume "\<not> i < j"
  let ?order = "iter (pm \<union> cm)"
  let ?r = "rank_of sk"
  let ?sorted = "sort_key ?r ?order"
  let ?x = "?order ! a" and ?y = "?order ! b"
  let ?P = "\<lambda>n. ?r n = ?r ?x"
  have "res \<noteq> []" using assms(8) by auto
  with assms(2) obtain pm' cm' where
    "analyze_prompt lib prompt rules = Inr pm'" "analyze_file_context lib files rules = Inr cm'"
    "map fst res =
       py_slice_to (dict_get (maxSimultaneousSkills (dict_get (meta rules) no_meta)) 3)
         (sort_key (rank_of (dict_get (skills rules) [])) (iter (pm' \<union> cm')))"
    by (rule main_names)
  with assms(3,4,5) have "map fst res =
       py_slice_to (dict_get (maxSimultaneousSkills (dict_get (meta rules) no_meta)) 3) ?sorted"
    by (simp add: dict_get_def)
  moreover obtain k where
    "py_slice_to (dict_get (maxSimultaneousSkills (dict_get (meta rules) no_meta)) 3) ?sorted
      = take k ?sorted"
    using py_slice_to_take by blast
  ultimately have names: "map fst res = take k ?sorted" by simp
  have "length (map fst res) = length (take k ?sorted)"
    by (simp only: names)
  then have len: "length res \<le> length ?sorted" and lenk: "length res \<le> k"
    by simp_all
  have nth: "?sorted ! n = fst (res ! n)" if "n < length res" for n
  proof -
    have "fst (res ! n) = map fst res ! n" using that by simp
    also have "\<dots> = take k ?sorted ! n" by (simp add: names)
    also have "\<dots> = ?sorted ! n"
      using that lenk by simp
    finally show ?thesis by simp
  qed
  have fin: "finite (pm \<union> cm)"
    using analyze_prompt_finite [OF assms(3)] analyze_file_context_finite [OF assms(4)] by simp
  then have d: "distinct ?order"
    using assms(1) by (simp add: lists_each_once_def)
  have neq: "?x \<noteq> ?y"
    using d assms(6,7) by (simp add: nth_eq_iff_index_eq)
  then have "i \<noteq> j" using assms(10,11) by auto
  with \<open>\<not> i < j\<close> have ji: "j < i" by simp
  have same: "?r ?x = ?r ?y"
    using assms(10-14) by (simp add: rank_of_def)
  obtain A B C where s: "?sorted = A @ ?y # B @ ?x # C"
    using split_two [OF ji, of ?sorted] assms(8) len nth [OF assms(8)] nth [OF assms(9)]
      assms(10,11) by auto
  obtain A' B' C' where o: "?order = A' @ ?x # B' @ ?y # C'"
    using split_two [OF assms(6,7)] by auto
  have py: "?P ?y" using same by simp
  have f1: "filter ?P ?sorted = filter ?P ?order"
    by (rule sort_key_stable)
  have "filter ?P (A @ ?y # B @ ?x # C) = filter ?P A @ ?y # filter ?P B @ ?x # filter ?P C"
    using py by simp
  then have f2: "filter ?P ?order = filter ?P A @ ?y # filter ?P B @ ?x # filter ?P C"
    using f1 s by simp
  have "filter ?P (A' @ ?x # B' @ ?y # C') = filter ?P A' @ ?x # filter ?P B' @ ?y # filter ?P C'"
    using py by simp
  then have f3: "filter ?P ?order = filter ?P A' @ ?x # filter ?P B' @ ?y # filter ?P C'"
    using o by simp
  have f4: "distinct (filter ?P ?order)"
    using d by simp
  from f4 f2 f3 show False
    by (rule order_unique)
qed

theorem ties_keep_iteration_order_witness:
  "lists_each_once descending
   \<and> main refusing_lib descending (text_of ''deploy'') [] tie_rules
       = Inr [(''Y'', ''Prompt keywords/patterns matched''),
              (''X'', ''Prompt keywords/patterns matched'')]
   \<and> analyze_prompt refusing_lib (text_of ''deploy'') tie_rules = Inr {''X'', ''Y''}
   \<and> analyze_file_context refusing_lib [] tie_rules = Inr {}
   \<and> descending ({''X'', ''Y''} \<union> {}) = [''Y'', ''X'']
   \<and> (0::nat) < 1"
proof -
  let ?res = "[(''Y'', ''Prompt keywords/patterns matched''),
              (''X'', ''Prompt keywords/patterns matched'')]"
  let ?sk = "[(''X'', skill (Some ''medium'') [''deploy''] [] []),
              (''Y'', skill (Some ''medium'') [''deploy''] [] [])]"
  have run: "main refusing_lib descending (text_of ''deploy'') [] tie_rules = Inr ?res"
    by code_simp
  have pm: "analyze_prompt refusing_lib (text_of ''deploy'') tie_rules = Inr {''X'', ''Y''}"
    by code_simp
  have cm: "analyze_file_context refusing_lib [] tie_rules = Inr {}"
    by code_simp
  have sk: "skills tie_rules = Some ?sk"
    by (simp add: tie_rules_def)
  have ord: "descending ({''X'', ''Y''} \<union> {}) = [''Y'', ''X'']"
    by code_simp
  have b: "1 < length (descending ({''X'', ''Y''} \<union> {}))"
    unfolding ord by simp
  have xi: "fst (?res ! 0) = descending ({''X'', ''Y''} \<union> {}) ! 0"
    unfolding ord by simp
  have xj: "fst (?res ! 1) = descending ({''X'', ''Y''} \<union> {}) ! 1"
    unfolding ord by simp
  have ci: "map_of ?sk (fst (?res ! 0)) = Some (skill (Some ''medium'') [''deploy''] [] [])"
    by simp
  have cj: "map_of ?sk (fst (?res ! 1)) = Some (skill (Some ''medium'') [''deploy''] [] [])"
    by simp
  have "(0::nat) < 1"
    by (rule ties_keep_iteration_order
          [OF lists_each_once_descending run pm cm sk _ b _ _ xi xj ci cj]) simp_all
  with lists_each_once_descending run pm cm ord show ?thesis
    by blast
qed

text \<open>
  C4, as the spec states it, fails. X is configured, scored and added before Y, both
  match and both have priority "medium"; where the set is iterated with Y first, Y stands
  before X in the result.
\<close>

theorem ties_follow_set_order_not_discovery:
  "main refusing_lib descending (text_of ''deploy'') [] tie_rules
     = Inr [(''Y'', ''Prompt keywords/patterns matched''),
            (''X'', ''Prompt keywords/patterns matched'')]"
  by code_simp



subsection \<open>The matcher against the sets of strings\<close>

lemma conc_iff: "w \<in> conc A B \<longleftrightarrow> (\<exists>u v. w = u @ v \<and> u \<in> A \<and> v \<in> B)"
  by (auto simp: conc_def)

lemma Cons_in_conc:
  "c # w \<in> conc A B \<longleftrightarrow>
     (\<exists>u v. w = u @ v \<and> c # u \<in> A \<and> v \<in> B) \<or> ([] \<in> A \<and> c # w \<in> B)"
proof
  assume "c # w \<in> conc A B"
  then obtain u v where uv: "c # w = u @ v" "u \<in> A" "v \<in> B"
    by (auto simp: conc_iff)
  show "(\<exists>u v. w = u @ v \<and> c # u \<in> A \<and> v \<in> B) \<or> ([] \<in> A \<and> c # w \<in> B)"
  proof (cases u)
    case Nil
    with uv show ?thesis by simp
  next
    case (Cons d u')
    with uv have "w = u' @ v" "c # u' \<in> A" by simp_all
    with uv(3) show ?thesis by blast
  qed
next
  assume "(\<exists>u v. w = u @ v \<and> c # u \<in> A \<and> v \<in> B) \<or> ([] \<in> A \<and> c # w \<in> B)"
  then show "c # w \<in> conc A B"
  proof
    assume "\<exists>u v. w = u @ v \<and> c # u \<in> A \<and> v \<in> B"
    then obtain u v where "w = u @ v" "c # u \<in> A" "v \<in> B" by blast
    then have "c # w = (c # u) @ v" by simp
    with \<open>c # u \<in> A\<close> \<open>v \<in> B\<close> show ?thesis unfolding conc_iff by blast
  next
    assume "[] \<in> A \<and> c # w \<in> B"
    then have "c # w = [] @ (c # w)" "[] \<in> A" "c # w \<in> B" by simp_all
    then show ?thesis unfolding conc_iff by blast
  qed
qed

lemma Nil_in_lpow: "[] \<in> lpow A k \<longleftrightarrow> k = 0 \<or> [] \<in> A"
  by (induction k) (auto simp: conc_iff)

lemma lpow_grows: "[] \<in> A \<Longrightarrow> lpow A k \<subseteq> lpow A (Suc k)"
proof
  fix w assume "[] \<in> A" "w \<in> lpow A k"
  then have "w = [] @ w" "[] \<in> A" "w \<in> lpow A k" by simp_all
  then show "w \<in> lpow A (Suc k)" unfolding lpow.simps conc_iff by blast
qed

lemma Cons_in_lpow:
  "c # w \<in> lpow A (Suc k) \<longleftrightarrow> w \<in> conc {u. c # u \<in> A} (lpow A k)"
proof (induction k)
  case 0
  show ?case by (auto simp: conc_iff)
next
  case (Suc k)
  have "c # w \<in> lpow A (Suc (Suc k)) \<longleftrightarrow>
      (\<exists>u v. w = u @ v \<and> c # u \<in> A \<and> v \<in> lpow A (Suc k))
      \<or> ([] \<in> A \<and> c # w \<in> lpow A (Suc k))"
    by (simp only: lpow.simps(2) [of A "Suc k"] Cons_in_conc)
  also have "\<dots> \<longleftrightarrow> w \<in> conc {u. c # u \<in> A} (lpow A (Suc k))
      \<or> ([] \<in> A \<and> w \<in> conc {u. c # u \<in> A} (lpow A k))"
    using Suc by (simp add: conc_iff)
  also have "\<dots> \<longleftrightarrow> w \<in> conc {u. c # u \<in> A} (lpow A (Suc k))"
  proof -
    have "w \<in> conc {u. c # u \<in> A} (lpow A (Suc k))"
      if "[] \<in> A" "w \<in> conc {u. c # u \<in> A} (lpow A k)"
      using that lpow_grows [of A k] unfolding conc_iff by blast
    then show ?thesis by blast
  qed
  finally show ?case .
qed

lemma nullable_iff: "nullable r \<longleftrightarrow> [] \<in> lang icase r"
proof (induction r)
  case (Repeat r lo hi)
  show ?case
  proof
    assume n: "nullable (Repeat r lo hi)"
    then have "in_bounds lo hi lo"
      by (cases hi) (auto simp: in_bounds_def)
    moreover have "[] \<in> lpow (lang icase r) lo"
      using n Repeat by (auto simp: Nil_in_lpow)
    ultimately show "[] \<in> lang icase (Repeat r lo hi)" by auto
  next
    assume "[] \<in> lang icase (Repeat r lo hi)"
    then obtain k where k: "in_bounds lo hi k" "[] \<in> lpow (lang icase r) k" by auto
    from k(1) have "bounds_ok lo hi"
      by (cases hi) (auto simp: in_bounds_def)
    moreover from k have "lo = 0 \<or> nullable r"
      using Repeat by (auto simp: Nil_in_lpow in_bounds_def)
    ultimately show "nullable (Repeat r lo hi)" by simp
  qed
qed (auto simp: conc_iff)

lemma deriv_Repeat_bounds:
  assumes "hi \<noteq> Some 0" and "bounds_ok lo hi"
  shows "in_bounds lo hi (Suc k) \<longleftrightarrow> in_bounds (lo - 1) (map_option (\<lambda>h. h - 1) hi) k"
  using assms by (cases hi) (auto simp: in_bounds_def)

lemma Cons_in_Repeat:
  assumes "hi \<noteq> Some 0" and "bounds_ok lo hi"
  shows "c # w \<in> (\<Union>k \<in> {k. in_bounds lo hi k}. lpow A k) \<longleftrightarrow>
         w \<in> conc {u. c # u \<in> A}
               (\<Union>k \<in> {k. in_bounds (lo - 1) (map_option (\<lambda>h. h - 1) hi) k}. lpow A k)"
proof
  assume "c # w \<in> (\<Union>k \<in> {k. in_bounds lo hi k}. lpow A k)"
  then obtain k where k: "in_bounds lo hi k" "c # w \<in> lpow A k" by auto
  then obtain k' where k': "k = Suc k'" by (cases k) auto
  from k(2) have "c # w \<in> lpow A (Suc k')" unfolding k' .
  then have "w \<in> conc {u. c # u \<in> A} (lpow A k')"
    by (simp only: Cons_in_lpow)
  moreover have "in_bounds (lo - 1) (map_option (\<lambda>h. h - 1) hi) k'"
    using k(1) k' deriv_Repeat_bounds [OF assms] by simp
  ultimately show "w \<in> conc {u. c # u \<in> A}
               (\<Union>k \<in> {k. in_bounds (lo - 1) (map_option (\<lambda>h. h - 1) hi) k}. lpow A k)"
    unfolding conc_iff by blast
next
  assume "w \<in> conc {u. c # u \<in> A}
               (\<Union>k \<in> {k. in_bounds (lo - 1) (map_option (\<lambda>h. h - 1) hi) k}. lpow A k)"
  then obtain k' where k': "in_bounds (lo - 1) (map_option (\<lambda>h. h - 1) hi) k'"
      "w \<in> conc {u. c # u \<in> A} (lpow A k')"
    unfolding conc_iff by blast
  then have "c # w \<in> lpow A (Suc k')" by (simp only: Cons_in_lpow)
  moreover have "in_bounds lo hi (Suc k')"
    using k'(1) deriv_Repeat_bounds [OF assms] by simp
  ultimately show "c # w \<in> (\<Union>k \<in> {k. in_bounds lo hi k}. lpow A k)" by blast
qed

lemma out_of_bounds_empty:
  assumes "hi = Some 0 \<or> \<not> bounds_ok lo hi"
  shows "c # w \<notin> (\<Union>k \<in> {k. in_bounds lo hi k}. lpow A k)"
proof
  assume "c # w \<in> (\<Union>k \<in> {k. in_bounds lo hi k}. lpow A k)"
  then obtain k where k: "in_bounds lo hi k" "c # w \<in> lpow A k" by auto
  from k(2) have "k \<noteq> 0" by (cases k) auto
  with k(1) assms show False
    by (cases hi) (auto simp: in_bounds_def)
qed

lemma lang_deriv: "w \<in> lang icase (deriv icase c r) \<longleftrightarrow> c # w \<in> lang icase r"
proof (induction r arbitrary: w)
  case Fail
  show ?case by simp
next
  case Eps
  show ?case by simp
next
  case (Atom a)
  show ?case by auto
next
  case (Seq r s)
  have "c # w \<in> lang icase (Seq r s) \<longleftrightarrow>
      (\<exists>u v. w = u @ v \<and> c # u \<in> lang icase r \<and> v \<in> lang icase s)
      \<or> ([] \<in> lang icase r \<and> c # w \<in> lang icase s)"
    by (simp only: lang.simps Cons_in_conc)
  also have "\<dots> \<longleftrightarrow> w \<in> conc (lang icase (deriv icase c r)) (lang icase s)
      \<or> (nullable r \<and> w \<in> lang icase (deriv icase c s))"
    by (simp add: conc_iff Seq nullable_iff [of r icase])
  also have "\<dots> \<longleftrightarrow> w \<in> lang icase (deriv icase c (Seq r s))"
    by auto
  finally show ?case by simp
next
  case (Alt r s)
  then show ?case by simp
next
  case (Repeat r lo hi)
  have d: "{u. c # u \<in> lang icase r} = lang icase (deriv icase c r)"
    using Repeat by auto
  show ?case
  proof (cases "hi = Some 0 \<or> \<not> bounds_ok lo hi")
    case True
    then have "deriv icase c (Repeat r lo hi) = Fail"
      by (cases hi) auto
    with out_of_bounds_empty [OF True] show ?thesis by simp
  next
    case False
    then have ok: "hi \<noteq> Some 0" "bounds_ok lo hi" by auto
    then have "deriv icase c (Repeat r lo hi)
        = Seq (deriv icase c r) (Repeat r (lo - 1) (map_option (\<lambda>h. h - 1) hi))"
      by (cases hi) auto
    then show ?thesis
      using Cons_in_Repeat [OF ok, of c w "lang icase r"] by (simp add: d)
  qed
qed

text \<open>The three ways of matching, in terms of the sets of strings.\<close>

lemma full_match_iff: "full_match icase r w \<longleftrightarrow> w \<in> lang icase r"
  by (induction w arbitrary: r) (simp_all add: nullable_iff [of _ icase] lang_deriv)

lemma match_prefix_iff:
  "match_prefix icase r s \<longleftrightarrow> (\<exists>u v. s = u @ v \<and> u \<in> lang icase r)"
proof (induction s arbitrary: r)
  case Nil
  show ?case by (simp add: nullable_iff [of _ icase])
next
  case (Cons c cs)
  have "(\<exists>u v. c # cs = u @ v \<and> u \<in> lang icase r) \<longleftrightarrow>
        [] \<in> lang icase r \<or> (\<exists>u v. cs = u @ v \<and> c # u \<in> lang icase r)"
    by (auto simp: Cons_eq_append_conv)
  then show ?case
    using Cons [of "deriv icase c r"] by (simp add: nullable_iff [of _ icase] lang_deriv)
qed

lemma search_anywhere_iff:
  "search_anywhere icase r s \<longleftrightarrow> (\<exists>t u v. s = t @ u @ v \<and> u \<in> lang icase r)"
proof (induction s)
  case Nil
  show ?case by (simp add: nullable_iff [of _ icase])
next
  case (Cons c cs)
  have "(\<exists>t u v. c # cs = t @ u @ v \<and> u \<in> lang icase r) \<longleftrightarrow>
        (\<exists>u v. c # cs = u @ v \<and> u \<in> lang icase r)
        \<or> (\<exists>t u v. cs = t @ u @ v \<and> u \<in> lang icase r)"
    (is "?L \<longleftrightarrow> ?A \<or> ?B")
  proof
    assume ?L
    then obtain t u v where tuv: "c # cs = t @ u @ v" "u \<in> lang icase r" by blast
    show "?A \<or> ?B"
    proof (cases t)
      case Nil
      with tuv show ?thesis by auto
    next
      case (Cons d t')
      with tuv have "cs = t' @ u @ v" by simp
      with tuv(2) show ?thesis by blast
    qed
  next
    assume "?A \<or> ?B"
    then show ?L
    proof
      assume ?A
      then obtain u v where "c # cs = [] @ u @ v" "u \<in> lang icase r" by auto
      then show ?L by blast
    next
      assume ?B
      then obtain t u v where "cs = t @ u @ v" "u \<in> lang icase r" by blast
      then have "c # cs = (c # t) @ u @ v" by simp
      with \<open>u \<in> lang icase r\<close> show ?L by blast
    qed
  qed
  then show ?case
    using Cons by (simp only: search_anywhere.simps match_prefix_iff)
qed

subsection \<open>Replacing in strings\<close>

lemma str_replace_Nil: "old \<noteq> [] \<Longrightarrow> str_replace old new [] = []"
  by (simp add: str_replace.simps)

lemma str_replace_other:
  "old \<noteq> [] \<Longrightarrow> hd old \<noteq> c \<Longrightarrow> str_replace old new (c # s) = c # str_replace old new s"
  by (subst str_replace.simps) (cases old; simp)

lemma str_replace_skip:
  "old \<noteq> [] \<Longrightarrow> hd old \<notin> set u \<Longrightarrow> str_replace old new (u @ s) = u @ str_replace old new s"
  by (induction u) (auto simp: str_replace_other)

lemma str_replace_absent:
  "old \<noteq> [] \<Longrightarrow> hd old \<notin> set u \<Longrightarrow> str_replace old new u = u"
  using str_replace_skip [of old u new "[]"] by (simp add: str_replace_Nil)

lemma str_replace_char:
  "str_replace [c] new (c # s) = new @ str_replace [c] new s"
  by (subst str_replace.simps) simp

lemma str_replace_char_append:
  "str_replace [c] new (x @ y) = str_replace [c] new x @ str_replace [c] new y"
proof (induction x)
  case Nil
  show ?case by (simp add: str_replace_Nil)
next
  case (Cons d x)
  then show ?case
    by (cases "d = c") (simp_all add: str_replace_char str_replace_other)
qed

lemma str_replace_stars_hit:
  "str_replace ''**'' new (CHR ''*'' # CHR ''*'' # s) = new @ str_replace ''**'' new s"
  by (subst str_replace.simps) simp

lemma str_replace_stars_miss:
  "\<not> (c = CHR ''*'' \<and> s \<noteq> [] \<and> hd s = CHR ''*'') \<Longrightarrow>
     str_replace ''**'' new (c # s) = c # str_replace ''**'' new s"
  by (subst str_replace.simps) (cases s; auto)

lemma str_replace_stars_append:
  "a = [] \<or> last a \<noteq> CHR ''*'' \<Longrightarrow>
     str_replace ''**'' new (a @ s) = str_replace ''**'' new a @ str_replace ''**'' new s"
proof (induction a rule: induct_list012)
  case 1
  show ?case by (simp add: str_replace_Nil)
next
  case (2 c)
  then show ?case by (simp add: str_replace_stars_miss str_replace_Nil)
next
  case (3 c d a)
  show ?case
  proof (cases "c = CHR ''*'' \<and> d = CHR ''*''")
    case True
    have "a = [] \<or> last a \<noteq> CHR ''*''"
      using 3(3) True by (cases a) auto
    with 3(1) True show ?thesis by (simp add: str_replace_stars_hit)
  next
    case False
    have "d # a = [] \<or> last (d # a) \<noteq> CHR ''*''"
      using 3(3) by simp
    with 3(2) False show ?thesis by (simp add: str_replace_stars_miss)
  qed
qed

lemma glob_to_regex_around_star:
  assumes "a = [] \<or> last a \<noteq> CHR ''*''" and "b = [] \<or> hd b \<noteq> CHR ''*''"
  shows "glob_to_regex (a @ ''*'' @ b) = glob_to_regex a @ ''[^/]*'' @ glob_to_regex b"
proof -
  have "str_replace ''**'' ''.*'' (''*'' @ b) = ''*'' @ str_replace ''**'' ''.*'' b"
    using assms(2) by (simp add: str_replace_stars_miss)
  then have 1: "str_replace ''**'' ''.*'' (a @ ''*'' @ b)
      = str_replace ''**'' ''.*'' a @ ''*'' @ str_replace ''**'' ''.*'' b"
    using str_replace_stars_append [OF assms(1), of "''.*''" "''*'' @ b"] by simp
  have star: "str_replace ''*'' ''[^/]*'' ''*'' = ''[^/]*''"
    by (simp add: str_replace_char str_replace_Nil)
  have keep: "str_replace [c] new ''[^/]*'' = ''[^/]*''"
    if "c \<notin> set ''[^/]*''" for c new
    using that by (intro str_replace_absent) auto
  show ?thesis
    unfolding glob_to_regex_def 1
    by (simp only: str_replace_char_append star)
      (simp add: keep del: append.simps)
qed

lemma glob_single_star:
  assumes "\<forall>c \<in> set u. plain_char c" and "\<forall>c \<in> set v. plain_char c"
  shows "glob_to_regex (u @ ''*'' @ v) = u @ ''[^/]*'' @ v"
proof -
  have nu: "CHR ''*'' \<notin> set u" "CHR ''{'' \<notin> set u" "CHR ''}'' \<notin> set u" "CHR '','' \<notin> set u"
    using assms(1) by (auto simp: plain_char_def)
  have nv: "CHR ''*'' \<notin> set v" "CHR ''{'' \<notin> set v" "CHR ''}'' \<notin> set v" "CHR '','' \<notin> set v"
    using assms(2) by (auto simp: plain_char_def)
  have "str_replace ''**'' ''.*'' (CHR ''*'' # v) = CHR ''*'' # str_replace ''**'' ''.*'' v"
    using nv(1) by (subst str_replace.simps) (cases v; simp)
  then have 1: "str_replace ''**'' ''.*'' (u @ ''*'' @ v) = u @ ''*'' @ v"
    using nu(1) nv(1) by (simp add: str_replace_skip str_replace_absent)
  have 2: "str_replace ''*'' ''[^/]*'' (u @ ''*'' @ v) = u @ ''[^/]*'' @ v"
    using nu(1) nv(1) by (simp add: str_replace_skip str_replace_char str_replace_absent)
  have 3: "str_replace [c] new (u @ ''[^/]*'' @ v) = u @ ''[^/]*'' @ v"
    if "c \<notin> set u" "c \<notin> set v" "c \<notin> set ''[^/]*''" for c new
    using that by (intro str_replace_absent) auto
  have a: "str_replace ''{'' ''('' (u @ ''[^/]*'' @ v) = u @ ''[^/]*'' @ v"
    using nu nv by (intro 3) auto
  have b: "str_replace ''}'' '')'' (u @ ''[^/]*'' @ v) = u @ ''[^/]*'' @ v"
    using nu nv by (intro 3) auto
  have c: "str_replace '','' ''|'' (u @ ''[^/]*'' @ v) = u @ ''[^/]*'' @ v"
    using nu nv by (intro 3) auto
  show ?thesis
    unfolding glob_to_regex_def 1 2 a b c ..
qed

subsection \<open>Reading literal characters\<close>

lemma parse_step_plain:
  "plain_char c \<Longrightarrow>
     parse_step c cs fr stack = Continue cs (fst fr, (Atom (item_of c), False) # snd fr) stack"
  by (simp add: parse_step_def plain_char_def item_of_def)

lemma re_parse_from_plain:
  "\<forall>c \<in> set u. plain_char c \<Longrightarrow>
     re_parse_from (u @ rest) fr stack = re_parse_from rest (fst fr, lits u @ snd fr) stack"
proof (induction u arbitrary: fr)
  case Nil
  show ?case by (simp add: lits_def)
next
  case (Cons c u)
  then have "re_parse_from ((c # u) @ rest) fr stack
      = re_parse_from (u @ rest) (fst fr, (Atom (item_of c), False) # snd fr) stack"
    by (simp add: re_parse_from.simps parse_step_plain)
  also have "\<dots> = re_parse_from rest (fst fr, lits u @ (Atom (item_of c), False) # snd fr) stack"
    using Cons by simp
  finally show ?case by (simp add: lits_def)
qed

lemma re_parse_from_any_segment:
  assumes "\<forall>c \<in> set v. plain_char c"
  shows "re_parse_from (''[^/]*'' @ v) fr stack
     = re_parse_from v
         (fst fr, (Repeat (Atom (CharSet True ''/'')) 0 None, True) # snd fr) stack"
proof -
  have hd: "v \<noteq> [] \<Longrightarrow> hd v \<noteq> CHR ''+'' \<and> hd v \<noteq> CHR ''?''"
    using assms by (cases v) (auto simp: plain_char_def)
  have 1: "parse_step CHR ''['' (''^/]*'' @ v) fr stack
      = Continue (CHR ''*'' # v) (fst fr, (Atom (CharSet True ''/''), False) # snd fr) stack"
    by (simp add: parse_step_def read_set_def)
  have 2: "parse_step CHR ''*'' v (fst fr, (Atom (CharSet True ''/''), False) # snd fr) stack
      = Continue v (fst fr, (Repeat (Atom (CharSet True ''/'')) 0 None, True) # snd fr) stack"
    using hd by (auto simp: parse_step_def read_repeat_def quantifier_def)
  show ?thesis
    using 1 2 by (simp add: re_parse_from.simps(2))
qed

lemma re_parse_single_star:
  assumes "\<forall>c \<in> set u. plain_char c" and "\<forall>c \<in> set v. plain_char c"
  shows "re_parse (u @ ''[^/]*'' @ v)
     = Parsed (seq_of (lits v @ (Repeat (Atom (CharSet True ''/'')) 0 None, True) # lits u))"
proof -
  have "CHR 0x5C \<notin> set (u @ ''[^/]*'' @ v)"
    using assms by (auto simp: plain_char_def)
  then have "re_parse (u @ ''[^/]*'' @ v) = re_parse_from (u @ ''[^/]*'' @ v) ([], []) []"
    by (simp only: re_parse_def if_False)
  also have "\<dots> = re_parse_from (''[^/]*'' @ v) ([], lits u) []"
    using re_parse_from_plain [OF assms(1)] by simp
  also have "\<dots> = re_parse_from v
      ([], (Repeat (Atom (CharSet True ''/'')) 0 None, True) # lits u) []"
    using re_parse_from_any_segment [OF assms(2)] by simp
  also have "\<dots> = re_parse_from []
      ([], lits v @ (Repeat (Atom (CharSet True ''/'')) 0 None, True) # lits u) []"
    using re_parse_from_plain [OF assms(2), of "[]"] by simp
  finally show ?thesis
    by (simp add: re_parse_from.simps(1) close_frame_def)
qed

subsection \<open>What the expression stands for\<close>

lemma atom_accepts_item_of: "atom_accepts False (item_of g) c \<longleftrightarrow> stands_for g c"
  by (simp add: item_of_def stands_for_def)

lemma reads_as_Nil: "reads_as [] m \<longleftrightarrow> m = []"
  by (simp add: reads_as_def)

lemma reads_as_Cons:
  "reads_as (g # u) m \<longleftrightarrow> (\<exists>c m'. m = c # m' \<and> stands_for g c \<and> reads_as u m')"
  by (simp add: reads_as_def list_all2_Cons1)

lemma reads_as_itself:
  "CHR ''.'' \<notin> set u \<Longrightarrow> reads_as u m \<longleftrightarrow> m = u"
proof (induction u arbitrary: m)
  case Nil
  show ?case by (simp add: reads_as_Nil)
next
  case (Cons g u)
  then show ?case by (auto simp: reads_as_Cons stands_for_def)
qed

lemma lang_lits:
  "lang False (foldl (\<lambda>acc it. Seq (fst it) acc) acc (lits u))
     = {m @ w | m w. reads_as u m \<and> w \<in> lang False acc}"
proof (induction u)
  case Nil
  show ?case by (simp add: lits_def reads_as_Nil)
next
  case (Cons g u)
  have "lits (g # u) = lits u @ [(Atom (item_of g), False)]"
    by (simp add: lits_def)
  then have "lang False (foldl (\<lambda>acc it. Seq (fst it) acc) acc (lits (g # u)))
      = conc {[c] | c. stands_for g c}
          (lang False (foldl (\<lambda>acc it. Seq (fst it) acc) acc (lits u)))"
    by (simp add: atom_accepts_item_of)
  also have "\<dots> = {m @ w | m w. reads_as (g # u) m \<and> w \<in> lang False acc}"
  proof (intro set_eqI iffI)
    fix x
    assume "x \<in> conc {[c] | c. stands_for g c}
        (lang False (foldl (\<lambda>acc it. Seq (fst it) acc) acc (lits u)))"
    then obtain c m w where "x = [c] @ m @ w" "stands_for g c" "reads_as u m"
      "w \<in> lang False acc"
      unfolding Cons conc_iff by blast
    then have "x = (c # m) @ w \<and> reads_as (g # u) (c # m) \<and> w \<in> lang False acc"
      by (simp add: reads_as_Cons)
    then show "x \<in> {m @ w | m w. reads_as (g # u) m \<and> w \<in> lang False acc}"
      by blast
  next
    fix x
    assume "x \<in> {m @ w | m w. reads_as (g # u) m \<and> w \<in> lang False acc}"
    then obtain m w where "x = m @ w" "reads_as (g # u) m" "w \<in> lang False acc"
      by blast
    then obtain c m' where "x = [c] @ m' @ w" "stands_for g c" "reads_as u m'"
      "w \<in> lang False acc"
      by (auto simp: reads_as_Cons)
    then show "x \<in> conc {[c] | c. stands_for g c}
        (lang False (foldl (\<lambda>acc it. Seq (fst it) acc) acc (lits u)))"
      unfolding Cons conc_iff by blast
  qed
  finally show ?case .
qed

lemma lpow_chars:
  "w \<in> lpow {[c] | c. P c} k \<longleftrightarrow> length w = k \<and> (\<forall>c \<in> set w. P c)"
proof (induction k arbitrary: w)
  case 0
  show ?case by auto
next
  case (Suc k)
  show ?case
  proof (cases w)
    case Nil
    then show ?thesis by (auto simp: conc_iff)
  next
    case (Cons d w')
    have "d # w' \<in> lpow {[c] | c. P c} (Suc k) \<longleftrightarrow> P d \<and> w' \<in> lpow {[c] | c. P c} k"
      by (simp add: Cons_in_conc)
    then show ?thesis using Suc [of w'] Cons by auto
  qed
qed

lemma lang_any_segment:
  "lang False (Repeat (Atom (CharSet True ''/'')) 0 None) = {w. CHR ''/'' \<notin> set w}"
proof -
  have "lang False (Atom (CharSet True ''/'')) = {[c] | c. c \<noteq> CHR ''/''}"
    by auto
  moreover have "{k. in_bounds 0 None k} = UNIV"
    by (simp add: in_bounds_def)
  ultimately have "lang False (Repeat (Atom (CharSet True ''/'')) 0 None)
      = (\<Union>k. lpow {[c] | c. c \<noteq> CHR ''/''} k)"
    by (simp only: lang.simps)
  also have "\<dots> = {w. CHR ''/'' \<notin> set w}"
    by (auto simp: lpow_chars)
  finally show ?thesis .
qed

lemma lang_single_star:
  "lang False (seq_of (lits v @ (Repeat (Atom (CharSet True ''/'')) 0 None, True) # lits u))
     = {m @ w @ n | m w n. reads_as u m \<and> CHR ''/'' \<notin> set w \<and> reads_as v n}"
proof -
  let ?f = "\<lambda>acc it. Seq (fst it) acc"
  let ?R = "Repeat (Atom (CharSet True ''/'')) 0 None"
  have "seq_of (lits v @ (?R, True) # lits u)
      = foldl ?f (Seq ?R (foldl ?f Eps (lits v))) (lits u)"
    by (simp add: seq_of_def)
  then have "lang False (seq_of (lits v @ (?R, True) # lits u))
      = {m @ x | m x. reads_as u m
           \<and> x \<in> conc (lang False ?R) {n @ e | n e. reads_as v n \<and> e \<in> lang False Eps}}"
    by (simp only: lang_lits lang.simps(4))
  also have "\<dots> = {m @ w @ n | m w n. reads_as u m \<and> CHR ''/'' \<notin> set w \<and> reads_as v n}"
    by (simp only: lang_any_segment) (auto simp: conc_iff)
  finally show ?thesis .
qed

lemma single_star_matches:
  assumes "\<forall>c \<in> set u. plain_char c" and "\<forall>c \<in> set v. plain_char c"
  shows "re_match lib (glob_to_regex (u @ ''*'' @ v)) file_path = Matched \<longleftrightarrow>
         (\<exists>m w n rest. file_path = m @ w @ n @ rest
            \<and> reads_as u m \<and> CHR ''/'' \<notin> set w \<and> reads_as v n)"
proof -
  let ?r = "seq_of (lits v @ (Repeat (Atom (CharSet True ''/'')) 0 None, True) # lits u)"
  let ?L = "{m @ w @ n | m w n. reads_as u m \<and> CHR ''/'' \<notin> set w \<and> reads_as v n}"
  have "re_parse (glob_to_regex (u @ ''*'' @ v)) = Parsed ?r"
    using assms by (simp only: glob_single_star re_parse_single_star)
  then have "re_match lib (glob_to_regex (u @ ''*'' @ v)) file_path = Matched \<longleftrightarrow>
      match_prefix False ?r file_path"
    by (simp add: re_match_def re_run_def)
  also have "\<dots> \<longleftrightarrow> (\<exists>x rest. file_path = x @ rest \<and> x \<in> ?L)"
    by (simp only: match_prefix_iff lang_single_star)
  also have "\<dots> \<longleftrightarrow> (\<exists>m w n rest. file_path = m @ w @ n @ rest
      \<and> reads_as u m \<and> CHR ''/'' \<notin> set w \<and> reads_as v n)"
  proof
    assume "\<exists>x rest. file_path = x @ rest \<and> x \<in> ?L"
    then obtain m w n rest where "file_path = (m @ w @ n) @ rest"
      "reads_as u m" "CHR ''/'' \<notin> set w" "reads_as v n"
      by blast
    then have "file_path = m @ w @ n @ rest
        \<and> reads_as u m \<and> CHR ''/'' \<notin> set w \<and> reads_as v n"
      by simp
    then show "\<exists>m w n rest. file_path = m @ w @ n @ rest
        \<and> reads_as u m \<and> CHR ''/'' \<notin> set w \<and> reads_as v n"
      by blast
  next
    assume "\<exists>m w n rest. file_path = m @ w @ n @ rest
        \<and> reads_as u m \<and> CHR ''/'' \<notin> set w \<and> reads_as v n"
    then obtain m w n rest where "file_path = m @ w @ n @ rest"
      "reads_as u m" "CHR ''/'' \<notin> set w" "reads_as v n"
      by blast
    then have "file_path = (m @ w @ n) @ rest \<and> m @ w @ n \<in> ?L"
      by auto
    then show "\<exists>x rest. file_path = x @ rest \<and> x \<in> ?L"
      by blast
  qed
  finally show ?thesis .
qed

subsection \<open>Glob patterns against paths\<close>

text \<open>
  C2, as the code has it. A single \<^verbatim>\<open>*\<close> is not treated as \<^verbatim>\<open>**\<close>. Wherever it stands
  with no other \<^verbatim>\<open>*\<close> next to it, the translation writes \<^verbatim>\<open>[^/]*\<close> for it, which takes any
  run of characters without the separator \<^verbatim>\<open>/\<close>. Let \<open>u\<close> and \<open>v\<close> contain none of the
  characters \<^verbatim>\<open>^ $ * + ? { } [ ] ( ) | ,\<close> and no backslash. Then the pattern \<open>u*v\<close> matches
  exactly the paths that begin with a reading of \<open>u\<close>, such a run, and a reading of \<open>v\<close>:
  in a reading every character is as in the pattern, except that any character but the
  line feed may stand where the pattern has a full stop, since the translation does not
  quote the full stop.
\<close>

theorem single_star_stays_within_segment:
  assumes "a = [] \<or> last a \<noteq> CHR ''*''" and "b = [] \<or> hd b \<noteq> CHR ''*''"
    and "\<forall>c \<in> set u. plain_char c" and "\<forall>c \<in> set v. plain_char c"
  shows "glob_to_regex (a @ ''*'' @ b) = glob_to_regex a @ ''[^/]*'' @ glob_to_regex b
         \<and> (re_match lib (glob_to_regex (u @ ''*'' @ v)) file_path = Matched \<longleftrightarrow>
              (\<exists>m w n rest. file_path = m @ w @ n @ rest
                 \<and> reads_as u m \<and> CHR ''/'' \<notin> set w \<and> reads_as v n))"
  using glob_to_regex_around_star [OF assms(1,2)] single_star_matches [OF assms(3,4)]
  by blast

theorem single_star_stays_within_segment_witness:
  "glob_to_regex (''**/'' @ ''*'' @ ''.test'')
     = glob_to_regex ''**/'' @ ''[^/]*'' @ glob_to_regex ''.test''
   \<and> ''src/app.py'' = ''src/'' @ ''app'' @ ''.py'' @ ''''
   \<and> reads_as ''src/'' ''src/'' \<and> CHR ''/'' \<notin> set ''app'' \<and> reads_as ''.py'' ''.py''
   \<and> re_match refusing_lib (glob_to_regex (''src/'' @ ''*'' @ ''.py'')) ''src/app.py''
       = Matched
   \<and> ''src/xapy'' = ''src/'' @ ''x'' @ ''apy'' @ '''' \<and> reads_as ''.py'' ''apy''
   \<and> re_match refusing_lib (glob_to_regex (''src/'' @ ''*'' @ ''.py'')) ''src/xapy''
       = Matched"
proof -
  have pa: "''**/'' = [] \<or> last ''**/'' \<noteq> CHR ''*''"
    by simp
  have pb: "''.test'' = [] \<or> hd ''.test'' \<noteq> CHR ''*''"
    by simp
  have pu: "\<forall>c \<in> set ''src/''. plain_char c"
    by (simp add: plain_char_def)
  have pv: "\<forall>c \<in> set ''.py''. plain_char c"
    by (simp add: plain_char_def)
  have split: "''src/app.py'' = ''src/'' @ ''app'' @ ''.py'' @ ''''
      \<and> reads_as ''src/'' ''src/'' \<and> CHR ''/'' \<notin> set ''app'' \<and> reads_as ''.py'' ''.py''"
    by (simp add: reads_as_def stands_for_def)
  then have there: "\<exists>m w n rest. ''src/app.py'' = m @ w @ n @ rest
      \<and> reads_as ''src/'' m \<and> CHR ''/'' \<notin> set w \<and> reads_as ''.py'' n"
    by blast
  have split': "''src/xapy'' = ''src/'' @ ''x'' @ ''apy'' @ ''''
      \<and> reads_as ''src/'' ''src/'' \<and> CHR ''/'' \<notin> set ''x'' \<and> reads_as ''.py'' ''apy''"
    by (simp add: reads_as_def stands_for_def)
  then have there': "\<exists>m w n rest. ''src/xapy'' = m @ w @ n @ rest
      \<and> reads_as ''src/'' m \<and> CHR ''/'' \<notin> set w \<and> reads_as ''.py'' n"
    by blast
  from single_star_stays_within_segment [OF pa pb pu pv, of refusing_lib "''src/app.py''"] there
  have 1: "glob_to_regex (''**/'' @ ''*'' @ ''.test'')
         = glob_to_regex ''**/'' @ ''[^/]*'' @ glob_to_regex ''.test''
       \<and> re_match refusing_lib (glob_to_regex (''src/'' @ ''*'' @ ''.py'')) ''src/app.py''
         = Matched"
    by blast
  from single_star_stays_within_segment [OF pa pb pu pv, of refusing_lib "''src/xapy''"] there'
  have 2: "re_match refusing_lib (glob_to_regex (''src/'' @ ''*'' @ ''.py'')) ''src/xapy''
         = Matched"
    by blast
  from split split' 1 2 show ?thesis by blast
qed

text \<open>
  C2, as the spec states it, fails: \<^verbatim>\<open>a*b\<close> matches the path \<^verbatim>\<open>ab\<close> and \<^verbatim>\<open>a**b\<close> does
  not, so the two are told apart; and \<^verbatim>\<open>a*b\<close> does not match \<^verbatim>\<open>a/b\<close>, so \<^verbatim>\<open>*\<close> does not
  take a separator.
\<close>

theorem star_is_not_double_star:
  "glob_to_regex ''a*b'' = ''a[^/]*b'' \<and> glob_to_regex ''a**b'' = ''a.[^/]*b''
   \<and> re_match refusing_lib (glob_to_regex ''a*b'') ''ab'' = Matched
   \<and> re_match refusing_lib (glob_to_regex ''a**b'') ''ab'' = NoMatch
   \<and> re_match refusing_lib (glob_to_regex ''a*b'') ''a/b'' = NoMatch"
  by code_simp





end
